theory Spec2Isabelle
  imports Main
begin

section \<open>Python values and the built-ins the reducer calls\<close>

text \<open>
  The crossword engine (\<^verbatim>\<open>septago_crossword/engine.py\<close>, \<^verbatim>\<open>geometry.py\<close>) is embedded
  function by function. A Python \<^verbatim>\<open>str\<close> is a \<^typ>\<open>string\<close> whose characters are the code
  points below 256; \<^verbatim>\<open>int\<close> is \<^typ>\<open>int\<close>; a \<^verbatim>\<open>dict\<close> is a map; a \<^verbatim>\<open>frozenset\<close> is a
  set. Every exception that can leave a function is a value \<open>Inl e\<close> of the result; an
  exception caught inside a \<^verbatim>\<open>try\<close> is the \<open>None\<close> of the guarded call.
\<close>

datatype error = IndexError | KeyError | RuntimeError

text \<open>
  A payload value, as the JSON event delivers it. \<open>PyOther t n\<close> stands for a value of any
  other type (a float, a list, a dict): the engine only ever calls \<^verbatim>\<open>str\<close> and
  \<^verbatim>\<open>int\<close> on payload values, so such a value is carried as the text \<open>t\<close> that \<^verbatim>\<open>str\<close>
  gives for it and the result \<open>n\<close> of \<^verbatim>\<open>int\<close> on it (\<open>None\<close> where \<^verbatim>\<open>int\<close> raises).
\<close>

datatype pyval = PyNone | PyBool bool | PyInt int | PyStr string | PyOther string "int option"

definition is_digit :: "char \<Rightarrow> bool" where
  "is_digit c = (48 \<le> (of_char c :: nat) \<and> (of_char c :: nat) \<le> 57)"

definition digit_val :: "char \<Rightarrow> int" where
  "digit_val c = int (of_char c) - 48"

text \<open>The characters \<^verbatim>\<open>int()\<close> skips at both ends of its argument.\<close>

definition int_space :: "char \<Rightarrow> bool" where
  "int_space c = ((of_char c :: nat) \<in> {9, 10, 11, 12, 13, 32, 133, 160})"

text \<open>The characters \<^verbatim>\<open>str.strip()\<close> removes.\<close>

definition str_space :: "char \<Rightarrow> bool" where
  "str_space c = ((of_char c :: nat) \<in> {9, 10, 11, 12, 13, 28, 29, 30, 31, 32, 133, 160})"

definition py_strip :: "string \<Rightarrow> string" where
  "py_strip s = dropWhile str_space (rev (dropWhile str_space (rev s)))"

text \<open>
  \<^verbatim>\<open>str.upper()\<close> and \<^verbatim>\<open>str.lower()\<close> on the ASCII letters. The engine only compares the
  converted text with ASCII constants (\<^verbatim>\<open>"A" <= ch <= "Z"\<close>, the four direction names), and
  no other code point below 256 is converted to an ASCII letter, so every test of the
  engine has the outcome it has in Python.
\<close>

definition upper_char :: "char \<Rightarrow> char" where
  "upper_char c = (let n = (of_char c :: nat) in if 97 \<le> n \<and> n \<le> 122 then char_of (n - 32) else c)"

definition lower_char :: "char \<Rightarrow> char" where
  "lower_char c = (let n = (of_char c :: nat) in if 65 \<le> n \<and> n \<le> 90 then char_of (n + 32) else c)"

definition py_upper :: "string \<Rightarrow> string" where
  "py_upper s = map upper_char s"

definition py_lower :: "string \<Rightarrow> string" where
  "py_lower s = map lower_char s"

text \<open>\<^verbatim>\<open>len(ch) == 1 and "A" <= ch <= "Z"\<close>\<close>

definition is_AZ :: "string \<Rightarrow> bool" where
  "is_AZ ch = (case ch of [c] \<Rightarrow> 65 \<le> (of_char c :: nat) \<and> (of_char c :: nat) \<le> 90 | _ \<Rightarrow> False)"

text \<open>\<^verbatim>\<open>str(n)\<close> of an integer: decimal digits, with a minus sign when negative.\<close>

fun str_of_nat :: "nat \<Rightarrow> string" where
  "str_of_nat n =
     (if n < 10 then [char_of (48 + n)] else str_of_nat (n div 10) @ [char_of (48 + n mod 10)])"

declare str_of_nat.simps [simp del]

definition str_of_int :: "int \<Rightarrow> string" where
  "str_of_int i = (if i < 0 then CHR ''-'' # str_of_nat (nat (- i)) else str_of_nat (nat i))"

fun py_str :: "pyval \<Rightarrow> string" where
  "py_str PyNone = ''None''"
| "py_str (PyBool b) = (if b then ''True'' else ''False'')"
| "py_str (PyInt i) = str_of_int i"
| "py_str (PyStr s) = s"
| "py_str (PyOther t n) = t"

text \<open>
  \<^verbatim>\<open>int(s)\<close> of a string, base 10: blanks at both ends are skipped, one sign is allowed,
  then digits, where single underscores may stand between two digits. \<open>None\<close> is the
  \<^verbatim>\<open>ValueError\<close> that every call site of the engine catches.
\<close>

fun parse_digits :: "string \<Rightarrow> int \<Rightarrow> int option" where
  "parse_digits [] acc = Some acc"
| "parse_digits (c # cs) acc =
     (if is_digit c then parse_digits cs (10 * acc + digit_val c)
      else if c = CHR ''_'' then
        (case cs of
           [] \<Rightarrow> None
         | d # ds \<Rightarrow> if is_digit d then parse_digits ds (10 * acc + digit_val d) else None)
      else None)"

definition parse_unsigned :: "string \<Rightarrow> int option" where
  "parse_unsigned s =
     (case s of [] \<Rightarrow> None | c # cs \<Rightarrow> if is_digit c then parse_digits cs (digit_val c) else None)"

definition py_int_str :: "string \<Rightarrow> int option" where
  "py_int_str s =
     (case dropWhile int_space (rev (dropWhile int_space (rev s))) of
        [] \<Rightarrow> None
      | c # cs \<Rightarrow>
          if c = CHR ''+'' then parse_unsigned cs
          else if c = CHR ''-'' then map_option uminus (parse_unsigned cs)
          else parse_unsigned (c # cs))"

text \<open>\<^verbatim>\<open>int(v)\<close> of a payload value; \<open>None\<close> where it raises.\<close>

fun py_int :: "pyval \<Rightarrow> int option" where
  "py_int PyNone = None"
| "py_int (PyBool b) = Some (if b then 1 else 0)"
| "py_int (PyInt i) = Some i"
| "py_int (PyStr s) = py_int_str s"
| "py_int (PyOther t n) = n"

text \<open>\<^verbatim>\<open>s.split(",")\<close>\<close>

fun split_comma :: "string \<Rightarrow> string list" where
  "split_comma [] = [[]]"
| "split_comma (c # cs) =
     (if c = CHR '','' then [] # split_comma cs
      else (case split_comma cs of [] \<Rightarrow> [[c]] | p # ps \<Rightarrow> (c # p) # ps))"

text \<open>
  The \<^verbatim>\<open>try\<close> block shared by \<^verbatim>\<open>_on_click_cell\<close> and \<^verbatim>\<open>init_state\<close>:
  \<^verbatim>\<open>r, c = cell_id.split(","); cell = (int(r), int(c))\<close>, \<open>None\<close> on any exception.
\<close>

definition parse_cell_id :: "string \<Rightarrow> (int \<times> int) option" where
  "parse_cell_id cell_id =
     (case split_comma cell_id of
        [r_s, c_s] \<Rightarrow>
          (case py_int_str r_s of
             None \<Rightarrow> None
           | Some r \<Rightarrow> (case py_int_str c_s of None \<Rightarrow> None | Some c \<Rightarrow> Some (r, c)))
      | _ \<Rightarrow> None)"

text \<open>\<^verbatim>\<open>xs.index(x)\<close> for an \<open>x\<close> that occurs in \<open>xs\<close>: the first position.\<close>

fun index_of :: "'a list \<Rightarrow> 'a \<Rightarrow> nat" where
  "index_of [] x = 0"
| "index_of (y # ys) x = (if y = x then 0 else Suc (index_of ys x))"

section \<open>Geometry (geometry.py)\<close>

type_synonym Cell = "int \<times> int"

datatype SlotId = H1 | H2 | V1 | V2 | HW

datatype Orientation = H | V

record GridSpec =
  grid_size :: int
  playable_mask :: "bool list list"
  slots :: "SlotId \<rightharpoonup> Cell list"
  cell_to_slots :: "Cell \<rightharpoonup> SlotId list"
  slot_lengths :: "SlotId \<rightharpoonup> nat"

text \<open>\<^verbatim>\<open>range(n)\<close>\<close>

definition py_range :: "int \<Rightarrow> int list" where
  "py_range n = map int [0..<nat n]"

text \<open>The slot identifiers in the order the \<^verbatim>\<open>slots\<close> dictionary is written.\<close>

definition slot_keys :: "SlotId list" where
  "slot_keys = [H1, H2, V1, V2, HW]"

fun fixed_slots :: "SlotId \<Rightarrow> Cell list" where
  "fixed_slots H1 = map (\<lambda>c. (1, c)) (py_range 5)"
| "fixed_slots H2 = map (\<lambda>c. (3, c)) (py_range 5)"
| "fixed_slots V1 = map (\<lambda>r. (r, 1)) (py_range 5)"
| "fixed_slots V2 = map (\<lambda>r. (r, 3)) (py_range 5)"
| "fixed_slots HW = [(1, 1), (1, 3), (3, 3), (3, 1)]"

text \<open>\<^verbatim>\<open>cell_to_slots.setdefault(cell, []).append(sid)\<close>, for every cell of every slot.\<close>

definition add_membership :: "SlotId \<Rightarrow> Cell \<Rightarrow> (Cell \<rightharpoonup> SlotId list) \<Rightarrow> (Cell \<rightharpoonup> SlotId list)" where
  "add_membership sid cell m = m(cell \<mapsto> (case m cell of None \<Rightarrow> [] | Some l \<Rightarrow> l) @ [sid])"

definition build_cell_to_slots :: "(SlotId \<Rightarrow> Cell list) \<Rightarrow> SlotId list \<Rightarrow> (Cell \<rightharpoonup> SlotId list)" where
  "build_cell_to_slots sl keys =
     fold (\<lambda>sid m. fold (add_membership sid) (sl sid) m) keys Map.empty"

definition build_grid_spec :: GridSpec where
  "build_grid_spec =
     \<lparr> grid_size = 5,
       playable_mask = map (\<lambda>r. map (\<lambda>c. r \<in> {1, 3} \<or> c \<in> {1, 3}) (py_range 5)) (py_range 5),
       slots = (\<lambda>sid. Some (fixed_slots sid)),
       cell_to_slots = build_cell_to_slots fixed_slots slot_keys,
       slot_lengths = (\<lambda>sid. Some (length (fixed_slots sid))) \<rparr>"

text \<open>\<^verbatim>\<open>grid.playable_mask[r][c]\<close> for \<open>r, c \<ge> 0\<close>; an index past the end raises.\<close>

definition mask_at :: "GridSpec \<Rightarrow> Cell \<Rightarrow> error + bool" where
  "mask_at grid cell =
     (case cell of (r, c) \<Rightarrow>
        if nat r < length (playable_mask grid) then
          (let row = playable_mask grid ! nat r
           in if nat c < length row then Inr (row ! nat c) else Inl IndexError)
        else Inl IndexError)"

definition is_playable :: "GridSpec \<Rightarrow> Cell \<Rightarrow> error + bool" where
  "is_playable grid cell =
     (case cell of (r, c) \<Rightarrow>
        if r < 0 \<or> c < 0 \<or> r \<ge> grid_size grid \<or> c \<ge> grid_size grid then Inr False
        else mask_at grid cell)"

text \<open>The cells in the order the nested \<^verbatim>\<open>for r ... for c ...\<close> loops visit them.\<close>

definition scan_cells :: "GridSpec \<Rightarrow> Cell list" where
  "scan_cells grid =
     concat (map (\<lambda>r. map (\<lambda>c. (r, c)) (py_range (grid_size grid))) (py_range (grid_size grid)))"

fun first_playable_from :: "GridSpec \<Rightarrow> Cell list \<Rightarrow> error + Cell" where
  "first_playable_from grid [] = Inl RuntimeError"
| "first_playable_from grid (cell # rest) =
     (case mask_at grid cell of
        Inl e \<Rightarrow> Inl e
      | Inr True \<Rightarrow> Inr cell
      | Inr False \<Rightarrow> first_playable_from grid rest)"

definition first_playable_cell :: "GridSpec \<Rightarrow> error + Cell" where
  "first_playable_cell grid = first_playable_from grid (scan_cells grid)"

section \<open>Game state and events (engine.py)\<close>

datatype CheckState = Ck_none | Ck_ok | Ck_bad

record TruthMap =
  truth :: "Cell \<rightharpoonup> string"

record GameState =
  puzzle_id :: string
  state_id :: string
  grid_letters :: "Cell \<rightharpoonup> string"
  given_cells :: "Cell set"
  active_cell :: Cell
  active_slot :: SlotId
  orientation :: Orientation
  check_marks :: "Cell \<rightharpoonup> CheckState"
  last_action :: string
  last_client_seq :: int

text \<open>
  An event as \<^verbatim>\<open>reduce\<close> reads it. The payload is the dictionary \<^verbatim>\<open>event.payload or {}\<close>:
  a payload of \<^verbatim>\<open>None\<close> is the empty map.
\<close>

record GridEvent =
  etype :: string
  payload :: "string \<rightharpoonup> pyval"

definition SLOT_ORDER :: "SlotId list" where
  "SLOT_ORDER = [H1, H2, V1, V2, HW]"

text \<open>\<^verbatim>\<open>str(payload.get(key, ""))\<close>\<close>

definition get_str :: "(string \<rightharpoonup> pyval) \<Rightarrow> string \<Rightarrow> string" where
  "get_str p key = (case p key of None \<Rightarrow> [] | Some v \<Rightarrow> py_str v)"

text \<open>\<^verbatim>\<open>state.grid_letters.get(cell, "")\<close>\<close>

definition letter_at :: "GameState \<Rightarrow> Cell \<Rightarrow> string" where
  "letter_at state cell = (case grid_letters state cell of None \<Rightarrow> [] | Some v \<Rightarrow> v)"

subsection \<open>Checks\<close>

definition mark_for :: "GameState \<Rightarrow> Cell \<Rightarrow> string \<Rightarrow> CheckState" where
  "mark_for state cell expected =
     (let val = letter_at state cell
      in if val = [] then Ck_bad else if val = expected then Ck_ok else Ck_bad)"

definition check_word_step :: "GameState \<Rightarrow> TruthMap \<Rightarrow> Cell \<Rightarrow> (Cell \<rightharpoonup> CheckState) \<Rightarrow> (Cell \<rightharpoonup> CheckState)" where
  "check_word_step state tm cell new_marks =
     (case truth tm cell of
        None \<Rightarrow> new_marks
      | Some expected \<Rightarrow> new_marks(cell \<mapsto> mark_for state cell expected))"

definition check_word :: "GameState \<Rightarrow> GridSpec \<Rightarrow> TruthMap \<Rightarrow> error + GameState" where
  "check_word state grid tm =
     (case slots grid (active_slot state) of
        None \<Rightarrow> Inl KeyError
      | Some cells \<Rightarrow>
          Inr (state\<lparr>check_marks := fold (check_word_step state tm) cells (check_marks state),
                     last_action := ''check_word''\<rparr>))"

text \<open>
  The loop of \<^verbatim>\<open>check_puzzle\<close> runs over the items of the truth dictionary and writes one
  mark per key, so the marks it leaves do not depend on the order of the items.
\<close>

definition check_puzzle :: "GameState \<Rightarrow> GridSpec \<Rightarrow> TruthMap \<Rightarrow> error + GameState" where
  "check_puzzle state grid tm =
     Inr (state\<lparr>check_marks :=
                  (\<lambda>cell. case truth tm cell of
                             None \<Rightarrow> check_marks state cell
                           | Some expected \<Rightarrow> Some (mark_for state cell expected)),
                last_action := ''check_puzzle''\<rparr>)"

definition clear_checks :: "GameState \<Rightarrow> GameState" where
  "clear_checks state =
     state\<lparr>check_marks := (\<lambda>cell. map_option (\<lambda>_. Ck_none) (check_marks state cell))\<rparr>"

subsection \<open>Helpers\<close>

definition resolve_active_slot :: "GridSpec \<Rightarrow> Cell \<Rightarrow> Orientation \<Rightarrow> bool \<Rightarrow> SlotId" where
  "resolve_active_slot grid cell ori prefer_hw =
     (let sl = (case cell_to_slots grid cell of None \<Rightarrow> [] | Some l \<Rightarrow> l);
          h_opts = filter (\<lambda>s. s \<in> {H1, H2}) sl;
          v_opts = filter (\<lambda>s. s \<in> {V1, V2}) sl;
          hw_opts = filter (\<lambda>s. s = HW) sl
      in if ori = H \<and> h_opts \<noteq> [] then hd h_opts
         else if ori = V \<and> v_opts \<noteq> [] then hd v_opts
         else if prefer_hw \<and> hw_opts \<noteq> [] then HW
         else if h_opts \<noteq> [] then hd h_opts
         else if v_opts \<noteq> [] then hd v_opts
         else if hw_opts \<noteq> [] then HW
         else H1)"

text \<open>\<^verbatim>\<open>has_h and has_v\<close> of \<^verbatim>\<open>_on_click_cell\<close> and \<^verbatim>\<open>_on_toggle_orientation\<close>.\<close>

definition has_h :: "GridSpec \<Rightarrow> Cell \<Rightarrow> bool" where
  "has_h grid cell =
     list_ex (\<lambda>s. s \<in> {H1, H2}) (case cell_to_slots grid cell of None \<Rightarrow> [] | Some l \<Rightarrow> l)"

definition has_v :: "GridSpec \<Rightarrow> Cell \<Rightarrow> bool" where
  "has_v grid cell =
     list_ex (\<lambda>s. s \<in> {V1, V2}) (case cell_to_slots grid cell of None \<Rightarrow> [] | Some l \<Rightarrow> l)"

text \<open>\<^verbatim>\<open>"V" if state.orientation == "H" else "H"\<close>\<close>

definition flip :: "Orientation \<Rightarrow> Orientation" where
  "flip ori = (if ori = H then V else H)"

definition on_click_cell :: "GameState \<Rightarrow> (string \<rightharpoonup> pyval) \<Rightarrow> GridSpec \<Rightarrow> error + GameState" where
  "on_click_cell state p grid =
     (case parse_cell_id (get_str p ''cell_id'') of
        None \<Rightarrow> Inr (state\<lparr>last_action := ''click:bad_cell_id''\<rparr>)
      | Some cell \<Rightarrow>
          (case is_playable grid cell of
             Inl e \<Rightarrow> Inl e
           | Inr False \<Rightarrow> Inr (state\<lparr>last_action := ''click:black_or_oob''\<rparr>)
           | Inr True \<Rightarrow>
               (let new_orientation =
                      (if cell = active_cell state \<and> has_h grid cell \<and> has_v grid cell
                       then flip (orientation state) else orientation state);
                    new_slot = resolve_active_slot grid cell new_orientation False
                in Inr (state\<lparr>active_cell := cell, orientation := new_orientation,
                              active_slot := new_slot, last_action := ''click''\<rparr>))))"

definition advance_within_slot :: "GridSpec \<Rightarrow> SlotId \<Rightarrow> Cell \<Rightarrow> int \<Rightarrow> error + Cell" where
  "advance_within_slot grid slot cell step =
     (case slots grid slot of
        None \<Rightarrow> Inl KeyError
      | Some cells \<Rightarrow>
          if cell \<notin> set cells then (case cells of [] \<Rightarrow> Inl IndexError | x # _ \<Rightarrow> Inr x)
          else
            (let idx = int (index_of cells cell); nxt = idx + step
             in if nxt < 0 \<or> nxt \<ge> int (length cells) then Inr cell
                else Inr (cells ! nat nxt)))"

definition on_type_char :: "GameState \<Rightarrow> (string \<rightharpoonup> pyval) \<Rightarrow> GridSpec \<Rightarrow> error + GameState" where
  "on_type_char state p grid =
     (let ch = py_upper (get_str p ''char'')
      in if \<not> is_AZ ch then Inr (state\<lparr>last_action := ''type:ignored''\<rparr>)
         else if active_cell state \<in> given_cells state
           then Inr (state\<lparr>last_action := ''type:on_given_ignored''\<rparr>)
         else
           (let new_letters = (grid_letters state)(active_cell state \<mapsto> ch);
                new_state = clear_checks (state\<lparr>grid_letters := new_letters, last_action := ''type''\<rparr>)
            in case advance_within_slot grid (active_slot state) (active_cell state) 1 of
                 Inl e \<Rightarrow> Inl e
               | Inr next_cell \<Rightarrow> Inr (new_state\<lparr>active_cell := next_cell\<rparr>)))"

definition on_backspace :: "GameState \<Rightarrow> GridSpec \<Rightarrow> error + GameState" where
  "on_backspace state grid =
     (if active_cell state \<in> given_cells state
        then Inr (state\<lparr>last_action := ''backspace:on_given_ignored''\<rparr>)
      else if letter_at state (active_cell state) \<noteq> []
        then Inr (clear_checks (state\<lparr>grid_letters := (grid_letters state)(active_cell state \<mapsto> []),
                                      last_action := ''backspace:clear''\<rparr>))
      else
        (case advance_within_slot grid (active_slot state) (active_cell state) (- 1) of
           Inl e \<Rightarrow> Inl e
         | Inr prev_cell \<Rightarrow>
             if prev_cell = active_cell state
               then Inr (state\<lparr>last_action := ''backspace:at_start''\<rparr>)
             else if prev_cell \<in> given_cells state
               then Inr (state\<lparr>active_cell := prev_cell, last_action := ''backspace:prev_is_given''\<rparr>)
             else Inr (clear_checks (state\<lparr>grid_letters := (grid_letters state)(prev_cell \<mapsto> []),
                                           active_cell := prev_cell,
                                           last_action := ''backspace:move_clear''\<rparr>))))"

definition step_dir :: "string \<Rightarrow> int \<times> int \<times> Orientation" where
  "step_dir d =
     (if d = ''LEFT'' then (0, - 1, H)
      else if d = ''RIGHT'' then (0, 1, H)
      else if d = ''UP'' then (- 1, 0, V)
      else if d = ''DOWN'' then (1, 0, V)
      else (0, 0, H))"

text \<open>
  The \<^verbatim>\<open>for _ in range(grid.size * grid.size)\<close> loop of \<^verbatim>\<open>_on_arrow\<close>; the first argument
  counts the iterations left, and the statement after the loop is the case \<open>0\<close>.
\<close>

fun arrow_loop :: "nat \<Rightarrow> GameState \<Rightarrow> GridSpec \<Rightarrow> string \<Rightarrow> int \<Rightarrow> int \<Rightarrow> Orientation \<Rightarrow> int \<Rightarrow> int \<Rightarrow> error + GameState" where
  "arrow_loop 0 state grid d dr dc ori r c = Inr (state\<lparr>last_action := ''arrow:failed''\<rparr>)"
| "arrow_loop (Suc n) state grid d dr dc ori r c =
     (let r' = r + dr; c' = c + dc; cell = (r', c')
      in if r' < 0 \<or> c' < 0 \<or> r' \<ge> grid_size grid \<or> c' \<ge> grid_size grid
           then Inr (state\<lparr>orientation := ori,
                           active_slot := resolve_active_slot grid (active_cell state) ori False,
                           last_action := ''arrow:edge''\<rparr>)
         else
           (case is_playable grid cell of
              Inl e \<Rightarrow> Inl e
            | Inr True \<Rightarrow>
                Inr (state\<lparr>active_cell := cell, orientation := ori,
                           active_slot := resolve_active_slot grid cell ori False,
                           last_action := ''arrow:'' @ py_lower d\<rparr>)
            | Inr False \<Rightarrow> arrow_loop n state grid d dr dc ori r' c'))"

definition on_arrow :: "GameState \<Rightarrow> (string \<rightharpoonup> pyval) \<Rightarrow> GridSpec \<Rightarrow> error + GameState" where
  "on_arrow state p grid =
     (let d = py_upper (get_str p ''dir'')
      in case step_dir d of (dr, dc, implied_orientation) \<Rightarrow>
           if dr = 0 \<and> dc = 0 then Inr (state\<lparr>last_action := ''arrow:ignored''\<rparr>)
           else arrow_loop (nat (grid_size grid * grid_size grid)) state grid d dr dc
                  implied_orientation (fst (active_cell state)) (snd (active_cell state)))"

text \<open>
  The first lines of \<^verbatim>\<open>_on_tab\<close>, up to \<^verbatim>\<open>slot = SLOT_ORDER[nxt]\<close>.
  \<^verbatim>\<open>SLOT_ORDER.index(cur)\<close> raises \<^verbatim>\<open>ValueError\<close> for a slot that is not listed, and the
  handler then takes index 0.
\<close>

definition tab_slot :: "SlotId \<Rightarrow> bool \<Rightarrow> SlotId" where
  "tab_slot cur forward =
     (let idx = (if cur \<in> set SLOT_ORDER then int (index_of SLOT_ORDER cur) else 0);
          nxt = (idx + (if forward then 1 else - 1)) mod int (length SLOT_ORDER)
      in SLOT_ORDER ! nat nxt)"

definition on_tab :: "GameState \<Rightarrow> GridSpec \<Rightarrow> bool \<Rightarrow> error + GameState" where
  "on_tab state grid forward =
     (let slot = tab_slot (active_slot state) forward
      in case slots grid slot of
           None \<Rightarrow> Inl KeyError
         | Some cells \<Rightarrow>
             (case cells of
                [] \<Rightarrow> Inl IndexError
              | first # _ \<Rightarrow>
                  (let ori = (if slot \<in> {H1, H2} then H
                              else if slot \<in> {V1, V2} then V else orientation state)
                   in Inr (state\<lparr>active_slot := slot, active_cell := first,
                                 orientation := ori, last_action := ''tab''\<rparr>))))"

definition on_toggle_orientation :: "GameState \<Rightarrow> GridSpec \<Rightarrow> error + GameState" where
  "on_toggle_orientation state grid =
     (let cell = active_cell state
      in if \<not> (has_h grid cell \<and> has_v grid cell) then Inr (state\<lparr>last_action := ''toggle:ignored''\<rparr>)
         else
           (let new_orientation = flip (orientation state);
                new_slot = resolve_active_slot grid cell new_orientation False
            in Inr (state\<lparr>orientation := new_orientation, active_slot := new_slot,
                          last_action := ''toggle''\<rparr>)))"

subsection \<open>The reducer\<close>

text \<open>
  \<^verbatim>\<open>int(client_seq) if client_seq is not None else None\<close> inside \<^verbatim>\<open>try ... except
  Exception\<close>: \<open>None\<close> for an absent key, for \<^verbatim>\<open>None\<close> and for every value \<^verbatim>\<open>int\<close>
  rejects.
\<close>

definition client_seq_int :: "(string \<rightharpoonup> pyval) \<Rightarrow> int option" where
  "client_seq_int p = (case p ''client_seq'' of None \<Rightarrow> None | Some v \<Rightarrow> py_int v)"

definition dispatch :: "GameState \<Rightarrow> GridEvent \<Rightarrow> GridSpec \<Rightarrow> TruthMap \<Rightarrow> error + GameState" where
  "dispatch state event grid tm =
     (let p = payload event; t = etype event
      in if t = ''CLICK_CELL'' then on_click_cell state p grid
         else if t = ''TYPE_CHAR'' then on_type_char state p grid
         else if t = ''BACKSPACE'' then on_backspace state grid
         else if t = ''ARROW'' then on_arrow state p grid
         else if t = ''TAB'' then on_tab state grid True
         else if t = ''SHIFT_TAB'' then on_tab state grid False
         else if t = ''TOGGLE_ORIENTATION'' then on_toggle_orientation state grid
         else if t = ''REQUEST_CHECK_WORD'' then check_word state grid tm
         else if t = ''REQUEST_CHECK_PUZZLE'' then check_puzzle state grid tm
         else Inr (state\<lparr>last_action := ''ignored:'' @ t\<rparr>))"

text \<open>The monotonic merge at the end of \<^verbatim>\<open>reduce\<close>.\<close>

definition merge_seq :: "int option \<Rightarrow> GameState \<Rightarrow> GameState" where
  "merge_seq client_seq out =
     (case client_seq of
        None \<Rightarrow> out
      | Some n \<Rightarrow> if n > last_client_seq out then out\<lparr>last_client_seq := n\<rparr> else out)"

definition reduce :: "GameState \<Rightarrow> GridEvent \<Rightarrow> GridSpec \<Rightarrow> TruthMap \<Rightarrow> error + GameState" where
  "reduce state event grid tm =
     (case dispatch state event grid tm of
        Inl e \<Rightarrow> Inl e
      | Inr out \<Rightarrow> Inr (merge_seq (client_seq_int (payload event)) out))"

text \<open>A stream of events, each applied to the state the previous one returned.\<close>

fun reduce_all :: "GameState \<Rightarrow> GridEvent list \<Rightarrow> GridSpec \<Rightarrow> TruthMap \<Rightarrow> error + GameState" where
  "reduce_all state [] grid tm = Inr state"
| "reduce_all state (event # events) grid tm =
     (case reduce state event grid tm of
        Inl e \<Rightarrow> Inl e
      | Inr out \<Rightarrow> reduce_all out events grid tm)"

subsection \<open>Initialisation\<close>

text \<open>
  What the engine reads of a puzzle: \<^verbatim>\<open>meta.get("id")\<close>, \<^verbatim>\<open>meta.get("givens")\<close>, the
  answer of each entry, in the order of the \<^verbatim>\<open>entries\<close> dictionary, and the file name.
  \<open>meta_givens\<close> is \<open>None\<close> when the key is absent or its value is not a list; an item of
  the list is \<open>None\<close> when it is not a dictionary.
\<close>

record Puzzle =
  meta_id :: "pyval option"
  meta_givens :: "(string \<rightharpoonup> pyval) option list option"
  entries :: "(SlotId \<times> string) list"
  filename :: string

text \<open>
  \<^verbatim>\<open>for i, cell in enumerate(cells): truth[cell] = entry.answer[i]\<close>; an answer shorter than
  the slot raises.
\<close>

fun project_answer :: "Cell list \<Rightarrow> string \<Rightarrow> (Cell \<rightharpoonup> string) \<Rightarrow> error + (Cell \<rightharpoonup> string)" where
  "project_answer [] answer t = Inr t"
| "project_answer (cell # cells) answer t =
     (case answer of
        [] \<Rightarrow> Inl IndexError
      | ch # rest \<Rightarrow> project_answer cells rest (t(cell \<mapsto> [ch])))"

fun project_entries :: "GridSpec \<Rightarrow> (SlotId \<times> string) list \<Rightarrow> (Cell \<rightharpoonup> string) \<Rightarrow> error + (Cell \<rightharpoonup> string)" where
  "project_entries grid [] t = Inr t"
| "project_entries grid ((sid, answer) # rest) t =
     (case slots grid sid of
        None \<Rightarrow> Inl KeyError
      | Some cells \<Rightarrow>
          (case project_answer cells answer t of
             Inl e \<Rightarrow> Inl e
           | Inr t' \<Rightarrow> project_entries grid rest t'))"

definition build_truth_map :: "Puzzle \<Rightarrow> GridSpec \<Rightarrow> error + TruthMap" where
  "build_truth_map puzzle grid =
     (case project_entries grid (entries puzzle) Map.empty of
        Inl e \<Rightarrow> Inl e
      | Inr t \<Rightarrow> Inr \<lparr> truth = t \<rparr>)"

text \<open>The first pair of loops: \<^verbatim>\<open>if grid.playable_mask[r][c]: grid_letters[(r, c)] = ""\<close>.\<close>

fun init_letters :: "GridSpec \<Rightarrow> Cell list \<Rightarrow> (Cell \<rightharpoonup> string) \<Rightarrow> error + (Cell \<rightharpoonup> string)" where
  "init_letters grid [] m = Inr m"
| "init_letters grid (cell # rest) m =
     (case mask_at grid cell of
        Inl e \<Rightarrow> Inl e
      | Inr b \<Rightarrow> init_letters grid rest (if b then m(cell \<mapsto> []) else m))"

text \<open>One pass of the loop over \<^verbatim>\<open>givens_raw\<close>; every \<^verbatim>\<open>continue\<close> returns the pair unchanged.\<close>

definition apply_given :: "(string \<rightharpoonup> pyval) option \<Rightarrow> (Cell \<rightharpoonup> string) \<times> Cell set \<Rightarrow> (Cell \<rightharpoonup> string) \<times> Cell set" where
  "apply_given item acc =
     (case item of
        None \<Rightarrow> acc
      | Some d \<Rightarrow>
          (let cell_id = get_str d ''cell'';
               letter = py_strip (py_upper (get_str d ''letter''))
           in case parse_cell_id cell_id of
                None \<Rightarrow> acc
              | Some cell \<Rightarrow>
                  if fst acc cell = None then acc
                  else if \<not> is_AZ letter then acc
                  else ((fst acc)(cell \<mapsto> letter), insert cell (snd acc))))"

text \<open>\<open>fresh_id\<close> is the text of the \<^verbatim>\<open>uuid.uuid4()\<close> drawn by the call.\<close>

definition init_state :: "Puzzle \<Rightarrow> GridSpec \<Rightarrow> string \<Rightarrow> error + GameState" where
  "init_state puzzle grid fresh_id =
     (case init_letters grid (scan_cells grid) Map.empty of
        Inl e \<Rightarrow> Inl e
      | Inr letters0 \<Rightarrow>
          (let seeded = fold apply_given (case meta_givens puzzle of None \<Rightarrow> [] | Some l \<Rightarrow> l)
                          (letters0, {})
           in case first_playable_cell grid of
                Inl e \<Rightarrow> Inl e
              | Inr start \<Rightarrow>
                  Inr \<lparr> puzzle_id = (case meta_id puzzle of None \<Rightarrow> filename puzzle | Some v \<Rightarrow> py_str v),
                        state_id = fresh_id,
                        grid_letters = fst seeded,
                        given_cells = snd seeded,
                        active_cell = start,
                        active_slot = resolve_active_slot grid start H False,
                        orientation = H,
                        check_marks = (\<lambda>cell. map_option (\<lambda>_. Ck_none) (fst seeded cell)),
                        last_action = ''init'',
                        last_client_seq = 0 \<rparr>))"

section \<open>Well-formed geometry and sample data\<close>

text \<open>
  What the reducer relies on in a geometry so as never to raise: the mask has
  \<open>grid_size\<close> rows of at least \<open>grid_size\<close> entries, and each of the five slots is
  defined and not empty.
\<close>

definition wf_grid :: "GridSpec \<Rightarrow> bool" where
  "wf_grid grid =
     (nat (grid_size grid) \<le> length (playable_mask grid)
      \<and> list_all (\<lambda>row. nat (grid_size grid) \<le> length row) (take (nat (grid_size grid)) (playable_mask grid))
      \<and> list_all (\<lambda>sid. case slots grid sid of None \<Rightarrow> False | Some cells \<Rightarrow> cells \<noteq> []) SLOT_ORDER)"

text \<open>\<^verbatim>\<open>0 <= r < grid.size and 0 <= c < grid.size\<close>\<close>

definition in_bounds :: "GridSpec \<Rightarrow> Cell \<Rightarrow> bool" where
  "in_bounds grid cell =
     (0 \<le> fst cell \<and> 0 \<le> snd cell \<and> fst cell < grid_size grid \<and> snd cell < grid_size grid)"

text \<open>The sequence counter \<^verbatim>\<open>reduce\<close> leaves: the larger of the old one and the event's.\<close>

definition seq_after :: "GameState \<Rightarrow> GridEvent \<Rightarrow> int" where
  "seq_after state event =
     (case client_seq_int (payload event) of
        None \<Rightarrow> last_client_seq state
      | Some n \<Rightarrow> max (last_client_seq state) n)"

text \<open>A state of the fixed geometry, used to run the reducer on concrete events.\<close>

definition sample_state :: GameState where
  "sample_state =
     \<lparr> puzzle_id = ''demo'', state_id = ''s0'',
       grid_letters = (\<lambda>cell. if is_playable build_grid_spec cell = Inr True
                               then Some (if cell = (1, 0) then ''Q'' else []) else None),
       given_cells = {(1, 0)},
       active_cell = (1, 1), active_slot = H1, orientation = H,
       check_marks = (\<lambda>cell. if is_playable build_grid_spec cell = Inr True then Some Ck_none else None),
       last_action = ''init'', last_client_seq = 3 \<rparr>"

text \<open>A truth map and an event constructor for the same purpose.\<close>

definition sample_truth :: TruthMap where
  "sample_truth = \<lparr> truth = (\<lambda>cell. if is_playable build_grid_spec cell = Inr True then Some ''A'' else None) \<rparr>"

definition event :: "string \<Rightarrow> (string \<times> pyval) list \<Rightarrow> GridEvent" where
  "event t kvs = \<lparr> etype = t, payload = map_of kvs \<rparr>"

section \<open>The claims' vocabulary\<close>




text \<open>The directions \<^verbatim>\<open>_step_dir\<close> knows.\<close>

definition DIRS :: "string list" where
  "DIRS = [''LEFT'', ''RIGHT'', ''UP'', ''DOWN'']"




text \<open>The two edit events.\<close>

definition edit_event :: "GridEvent \<Rightarrow> bool" where
  "edit_event ev = (etype ev = ''TYPE_CHAR'' \<or> etype ev = ''BACKSPACE'')"

text \<open>Every cell that has a check mark gets the mark \<open>none\<close>; no other cell gets one.\<close>

definition all_none :: "(Cell \<rightharpoonup> CheckState) \<Rightarrow> (Cell \<rightharpoonup> CheckState)" where
  "all_none marks = (\<lambda>cell. if cell \<in> dom marks then Some Ck_none else None)"

text \<open>The \<open>k\<close>-th cell reached from \<open>start\<close> by steps of \<open>delta\<close>.\<close>

definition ray :: "Cell \<Rightarrow> int \<times> int \<Rightarrow> nat \<Rightarrow> Cell" where
  "ray start delta k = (fst start + int k * fst delta, snd start + int k * snd delta)"

text \<open>The cells before the \<open>k\<close>-th on the ray are inside the grid and not playable.\<close>

definition blocked_before :: "GridSpec \<Rightarrow> Cell \<Rightarrow> int \<times> int \<Rightarrow> nat \<Rightarrow> bool" where
  "blocked_before g start delta k =
     (\<forall>j. 1 \<le> j \<and> j < k \<longrightarrow>
        in_bounds g (ray start delta j) \<and> is_playable g (ray start delta j) = Inr False)"

text \<open>\<open>a\<close> comes no later than \<open>b\<close> when the grid is scanned row by row.\<close>

definition row_major_le :: "Cell \<Rightarrow> Cell \<Rightarrow> bool" where
  "row_major_le a b = (fst a < fst b \<or> (fst a = fst b \<and> snd a \<le> snd b))"

text \<open>The letter map of the fixed geometry before any given is seeded.\<close>

definition empty_letters :: "Cell \<rightharpoonup> string" where
  "empty_letters = (\<lambda>cell. if is_playable build_grid_spec cell = Inr True then Some [] else None)"

text \<open>
  What the loop over the givens keeps true of the pair (letters, givens), started from the
  letter map \<open>m0\<close>: the same cells have a letter entry, a cell that is not a given has the
  entry it had, and a given cell holds one letter \<open>A\<close> to \<open>Z\<close>.
\<close>

definition seeded :: "(Cell \<rightharpoonup> string) \<Rightarrow> (Cell \<rightharpoonup> string) \<times> Cell set \<Rightarrow> bool" where
  "seeded m0 acc =
     (\<forall>cell. (fst acc cell = None \<longleftrightarrow> m0 cell = None)
        \<and> (cell \<notin> snd acc \<longrightarrow> fst acc cell = m0 cell)
        \<and> (cell \<in> snd acc \<longrightarrow> (\<exists>l. fst acc cell = Some l \<and> is_AZ l)))"

text \<open>The pair (letters, givens) that \<^verbatim>\<open>init_state\<close> builds on the fixed geometry.\<close>

definition seed_fixed :: "Puzzle \<Rightarrow> (Cell \<rightharpoonup> string) \<times> Cell set" where
  "seed_fixed puzzle =
     fold apply_given (case meta_givens puzzle of None \<Rightarrow> [] | Some l \<Rightarrow> l) (empty_letters, {})"

text \<open>A puzzle whose givens hold one usable seed, a non-dictionary, a black cell and a two-letter value.\<close>

definition sample_puzzle :: Puzzle where
  "sample_puzzle =
     \<lparr> meta_id = Some (PyStr ''p1''),
       meta_givens = Some [Some (map_of [(''cell'', PyStr ''1,0''), (''letter'', PyStr '' q'')]),
                           None,
                           Some (map_of [(''cell'', PyStr ''0,0''), (''letter'', PyStr ''B'')]),
                           Some (map_of [(''cell'', PyStr ''1,1''), (''letter'', PyStr ''ab'')])],
       entries = [(H1, ''ABCDE''), (H2, ''FGHIJ''), (V1, ''KBLGM''), (V2, ''NDOIP''), (HW, ''BDIG'')],
       filename = ''demo.json'' \<rparr>"

text \<open>The playable cells of the fixed geometry.\<close>

definition playable_cells :: "Cell set" where
  "playable_cells = {cell. is_playable build_grid_spec cell = Inr True}"

text \<open>
  The invariants of the data model on the fixed geometry: letters and check marks are
  kept for exactly the playable cells, the given cells are playable, the active cell is
  playable and is one of the cells of the active slot.
\<close>

definition state_ok :: "GameState \<Rightarrow> bool" where
  "state_ok s =
     (dom (grid_letters s) = playable_cells
      \<and> dom (check_marks s) = playable_cells
      \<and> given_cells s \<subseteq> playable_cells
      \<and> active_cell s \<in> playable_cells
      \<and> active_cell s \<in> set (fixed_slots (active_slot s)))"

text \<open>The truth map has entries for playable cells only.\<close>

definition truth_ok :: "TruthMap \<Rightarrow> bool" where
  "truth_ok tm = (dom (truth tm) \<subseteq> playable_cells)"

text \<open>
  The states of a play on the fixed geometry: what \<^verbatim>\<open>init_state\<close> returns, and what
  \<^verbatim>\<open>reduce\<close> returns from such a state.
\<close>

inductive reachable :: "TruthMap \<Rightarrow> GameState \<Rightarrow> bool" for tm :: TruthMap where
  start: "init_state puzzle build_grid_spec fresh_id = Inr s \<Longrightarrow> reachable tm s"
| step: "reachable tm s \<Longrightarrow> reduce s ev build_grid_spec tm = Inr out \<Longrightarrow> reachable tm out"

section \<open>Properties\<close>

subsection \<open>The reducer returns on a well-formed geometry\<close>

lemma wf_grid_fixed: "wf_grid build_grid_spec"
  by (simp add: wf_grid_def build_grid_spec_def py_range_def SLOT_ORDER_def upt_rec)

lemma wf_grid_slots: "wf_grid g \<Longrightarrow> \<exists>x xs. slots g sid = Some (x # xs)"
  by (cases sid) (auto simp: wf_grid_def SLOT_ORDER_def neq_Nil_conv split: option.splits)

lemma wf_grid_mask_at:
  assumes "wf_grid g" "in_bounds g cell"
  shows "\<exists>b. mask_at g cell = Inr b"
proof -
  obtain r c where rc: "cell = (r, c)" by (cases cell)
  from assms rc have r: "nat r < nat (grid_size g)" and c: "nat c < nat (grid_size g)"
    by (auto simp: in_bounds_def)
  from assms(1) have len: "nat (grid_size g) \<le> length (playable_mask g)"
    and rows: "\<forall>row \<in> set (take (nat (grid_size g)) (playable_mask g)). nat (grid_size g) \<le> length row"
    by (auto simp: wf_grid_def list_all_iff)
  have "playable_mask g ! nat r = take (nat (grid_size g)) (playable_mask g) ! nat r"
    using r by simp
  moreover have "nat r < length (take (nat (grid_size g)) (playable_mask g))"
    using r len by simp
  ultimately have "playable_mask g ! nat r \<in> set (take (nat (grid_size g)) (playable_mask g))"
    by (metis nth_mem)
  with rows have "nat (grid_size g) \<le> length (playable_mask g ! nat r)" by blast
  with c have "nat c < length (playable_mask g ! nat r)" by linarith
  moreover from r len have "nat r < length (playable_mask g)" by linarith
  ultimately show ?thesis using rc by (simp add: mask_at_def Let_def)
qed

lemma wf_grid_is_playable: "wf_grid g \<Longrightarrow> \<exists>b. is_playable g cell = Inr b"
  using wf_grid_mask_at [of g cell]
  by (cases cell) (auto simp: is_playable_def in_bounds_def)

lemma arrow_loop_total:
  "wf_grid g \<Longrightarrow> \<exists>out. arrow_loop n s g d dr dc ori r c = Inr out"
proof (induction n arbitrary: r c)
  case 0
  then show ?case by simp
next
  case (Suc n)
  obtain b where b: "is_playable g (r + dr, c + dc) = Inr b"
    using wf_grid_is_playable [OF Suc.prems] by blast
  show ?case
    using b Suc.IH [OF Suc.prems, of "r + dr" "c + dc"]
    by (cases b) (auto simp: Let_def)
qed

lemma index_of_less: "x \<in> set xs \<Longrightarrow> index_of xs x < length xs"
  by (induction xs) auto

lemma nth_index_of: "x \<in> set xs \<Longrightarrow> xs ! index_of xs x = x"
  by (induction xs) auto

lemma index_of_nth: "distinct xs \<Longrightarrow> i < length xs \<Longrightarrow> index_of xs (xs ! i) = i"
  by (induction xs arbitrary: i) (auto simp: nth_Cons split: nat.splits)

lemma advance_total: "wf_grid g \<Longrightarrow> \<exists>cell'. advance_within_slot g sid cell step = Inr cell'"
  using wf_grid_slots [of g sid]
  by (auto simp: advance_within_slot_def Let_def)

lemma on_tab_total: "wf_grid g \<Longrightarrow> \<exists>out. on_tab s g fwd = Inr out"
  using wf_grid_slots [of g "tab_slot (active_slot s) fwd"]
  by (auto simp: on_tab_def Let_def)

lemma dispatch_total: "wf_grid g \<Longrightarrow> \<exists>out. dispatch s ev g tm = Inr out"
proof -
  assume wf: "wf_grid g"
  have h_click: "\<exists>out. on_click_cell s p g = Inr out" for p
  proof (cases "parse_cell_id (get_str p ''cell_id'')")
    case None
    then show ?thesis by (simp add: on_click_cell_def)
  next
    case (Some cell)
    obtain b where "is_playable g cell = Inr b"
      using wf_grid_is_playable [OF wf] by blast
    with Some show ?thesis by (cases b) (simp_all add: on_click_cell_def Let_def)
  qed
  have h_type: "\<exists>out. on_type_char s p g = Inr out" for p
    using advance_total [OF wf, of "active_slot s" "active_cell s" 1]
    by (auto simp: on_type_char_def Let_def)
  have h_back: "\<exists>out. on_backspace s g = Inr out"
    using advance_total [OF wf, of "active_slot s" "active_cell s" "- 1"]
    by (auto simp: on_backspace_def Let_def)
  have h_arrow: "\<exists>out. on_arrow s p g = Inr out" for p
    using arrow_loop_total [OF wf]
    by (auto simp: on_arrow_def Let_def split: prod.splits)
  have h_word: "\<exists>out. check_word s g tm = Inr out"
    using wf_grid_slots [OF wf, of "active_slot s"] by (auto simp: check_word_def)
  show ?thesis
    using h_click h_type h_back h_arrow h_word on_tab_total [OF wf]
    by (simp add: dispatch_def Let_def on_toggle_orientation_def check_puzzle_def)
qed

lemma reduce_total: "wf_grid g \<Longrightarrow> \<exists>out. reduce s ev g tm = Inr out"
  using dispatch_total [of g s ev tm] by (auto simp: reduce_def)


subsection \<open>Malformed events (C1)\<close>









subsection \<open>What no handler changes (C2, C5)\<close>

lemma arrow_loop_frame:
  "arrow_loop n s g d dr dc ori r c = Inr out \<Longrightarrow>
     last_client_seq out = last_client_seq s \<and> given_cells out = given_cells s
     \<and> grid_letters out = grid_letters s"
proof (induction n arbitrary: r c)
  case 0
  then show ?case by auto
next
  case (Suc n)
  then show ?case
    by (auto simp: Let_def split: if_splits sum.splits bool.splits)
qed

lemma on_click_cell_frame:
  "on_click_cell s p g = Inr out \<Longrightarrow>
     last_client_seq out = last_client_seq s \<and> given_cells out = given_cells s
     \<and> grid_letters out = grid_letters s"
  by (auto simp: on_click_cell_def Let_def split: option.splits sum.splits bool.splits)

lemma on_arrow_frame:
  "on_arrow s p g = Inr out \<Longrightarrow>
     last_client_seq out = last_client_seq s \<and> given_cells out = given_cells s
     \<and> grid_letters out = grid_letters s"
  using arrow_loop_frame
  by (auto simp: on_arrow_def Let_def split: prod.splits if_splits)

lemma on_tab_frame:
  "on_tab s g fwd = Inr out \<Longrightarrow>
     last_client_seq out = last_client_seq s \<and> given_cells out = given_cells s
     \<and> grid_letters out = grid_letters s"
  by (auto simp: on_tab_def Let_def split: option.splits list.splits)

lemma on_toggle_frame:
  "on_toggle_orientation s g = Inr out \<Longrightarrow>
     last_client_seq out = last_client_seq s \<and> given_cells out = given_cells s
     \<and> grid_letters out = grid_letters s"
  by (auto simp: on_toggle_orientation_def Let_def split: if_splits)

lemma check_frame:
  "check_word s g tm = Inr out \<Longrightarrow>
     last_client_seq out = last_client_seq s \<and> given_cells out = given_cells s
     \<and> grid_letters out = grid_letters s"
  "check_puzzle s g tm = Inr out \<Longrightarrow>
     last_client_seq out = last_client_seq s \<and> given_cells out = given_cells s
     \<and> grid_letters out = grid_letters s"
  by (auto simp: check_word_def check_puzzle_def split: option.splits)

lemma on_type_char_frame:
  "on_type_char s p g = Inr out \<Longrightarrow>
     last_client_seq out = last_client_seq s \<and> given_cells out = given_cells s
     \<and> (\<forall>cell \<in> given_cells s. grid_letters out cell = grid_letters s cell)"
  by (auto simp: on_type_char_def clear_checks_def Let_def split: if_splits sum.splits)

lemma on_backspace_frame:
  "on_backspace s g = Inr out \<Longrightarrow>
     last_client_seq out = last_client_seq s \<and> given_cells out = given_cells s
     \<and> (\<forall>cell \<in> given_cells s. grid_letters out cell = grid_letters s cell)"
  by (auto simp: on_backspace_def clear_checks_def Let_def split: if_splits sum.splits)

lemma dispatch_frame:
  assumes "dispatch s ev g tm = Inr out"
  shows "last_client_seq out = last_client_seq s \<and> given_cells out = given_cells s
     \<and> (\<forall>cell \<in> given_cells s. grid_letters out cell = grid_letters s cell)"
proof -
  have "dispatch s ev g tm = on_click_cell s (payload ev) g
      \<or> dispatch s ev g tm = on_type_char s (payload ev) g
      \<or> dispatch s ev g tm = on_backspace s g
      \<or> dispatch s ev g tm = on_arrow s (payload ev) g
      \<or> dispatch s ev g tm = on_tab s g True
      \<or> dispatch s ev g tm = on_tab s g False
      \<or> dispatch s ev g tm = on_toggle_orientation s g
      \<or> dispatch s ev g tm = check_word s g tm
      \<or> dispatch s ev g tm = check_puzzle s g tm
      \<or> dispatch s ev g tm = Inr (s\<lparr>last_action := ''ignored:'' @ etype ev\<rparr>)"
    by (simp add: dispatch_def Let_def)
  with assms show ?thesis
    using on_click_cell_frame [of s "payload ev" g out] on_type_char_frame [of s "payload ev" g out]
      on_backspace_frame [of s g out] on_arrow_frame [of s "payload ev" g out]
      on_tab_frame [of s g True out] on_tab_frame [of s g False out]
      on_toggle_frame [of s g out] check_frame [of s g tm out]
    by (elim disjE) auto
qed

lemma merge_seq_fields:
  "given_cells (merge_seq cs out) = given_cells out"
  "grid_letters (merge_seq cs out) = grid_letters out"
  "last_client_seq (merge_seq cs out) = (case cs of None \<Rightarrow> last_client_seq out | Some n \<Rightarrow> max (last_client_seq out) n)"
  by (auto simp: merge_seq_def split: option.splits)

lemma reduce_frame:
  assumes "reduce s ev g tm = Inr out"
  shows "last_client_seq out = seq_after s ev" and "given_cells out = given_cells s"
    and "cell \<in> given_cells s \<Longrightarrow> grid_letters out cell = grid_letters s cell"
proof -
  from assms obtain mid where mid: "dispatch s ev g tm = Inr mid"
    and out: "out = merge_seq (client_seq_int (payload ev)) mid"
    by (auto simp: reduce_def split: sum.splits)
  from dispatch_frame [OF mid] out
  show "last_client_seq out = seq_after s ev" and "given_cells out = given_cells s"
    and "cell \<in> given_cells s \<Longrightarrow> grid_letters out cell = grid_letters s cell"
    by (auto simp: merge_seq_fields seq_after_def split: option.splits)
qed


lemma reduce_all_total: "wf_grid g \<Longrightarrow> \<exists>out. reduce_all s evs g tm = Inr out"
proof (induction evs arbitrary: s)
  case Nil
  then show ?case by simp
next
  case (Cons ev evs)
  from reduce_total [OF Cons.prems] obtain mid where "reduce s ev g tm = Inr mid" by blast
  with Cons.IH [OF Cons.prems, of mid] show ?case by simp
qed


lemma reduce_all_given:
  "reduce_all s evs g tm = Inr out \<Longrightarrow>
     given_cells out = given_cells s \<and> (\<forall>cell \<in> given_cells s. grid_letters out cell = grid_letters s cell)"
proof (induction evs arbitrary: s)
  case Nil
  then show ?case by simp
next
  case (Cons ev evs)
  then obtain mid where mid: "reduce s ev g tm = Inr mid" and rest: "reduce_all mid evs g tm = Inr out"
    by (auto split: sum.splits)
  from reduce_frame(2,3) [OF mid] Cons.IH [OF rest] show ?case by simp
qed

text \<open>
  The sequence number \<^verbatim>\<open>reduce\<close> reads: none when the key is absent or holds \<^verbatim>\<open>None\<close> or a
  text that is not a number, the integer itself when the key holds one.
\<close>

lemma client_seq_int_cases:
  "p ''client_seq'' = None \<Longrightarrow> client_seq_int p = None"
  "p ''client_seq'' = Some PyNone \<Longrightarrow> client_seq_int p = None"
  "p ''client_seq'' = Some (PyInt n) \<Longrightarrow> client_seq_int p = Some n"
  "p ''client_seq'' = Some (PyStr ''abc'') \<Longrightarrow> client_seq_int p = None"
  "p ''client_seq'' = Some (PyStr ''12'') \<Longrightarrow> client_seq_int p = Some 12"
  by (simp_all add: client_seq_int_def py_int_str_def parse_unsigned_def is_digit_def digit_val_def
      int_space_def)


text \<open>
  Claim C2. On a well-formed geometry, from every state (reachable or not), every finite
  sequence of \<^verbatim>\<open>TYPE_CHAR\<close> and \<^verbatim>\<open>BACKSPACE\<close> events is reduced without an exception, the set
  of given cells is the same afterwards, and every given cell holds the letter it held
  before.
\<close>

theorem edits_keep_given_letters:
  assumes "wf_grid g" and "list_all edit_event evs"
  shows "\<exists>out. reduce_all s evs g tm = Inr out \<and> given_cells out = given_cells s
           \<and> (\<forall>cell \<in> given_cells s. grid_letters out cell = grid_letters s cell)"
proof -
  from reduce_all_total [OF assms(1)] obtain out where out: "reduce_all s evs g tm = Inr out" by blast
  with reduce_all_given [OF out] show ?thesis by simp
qed


theorem edits_keep_given_letters_witness:
  "wf_grid build_grid_spec
   \<and> list_all edit_event [event ''BACKSPACE'' [], event ''TYPE_CHAR'' [(''char'', PyStr ''z'')],
                           event ''BACKSPACE'' []]
   \<and> (\<exists>out. reduce_all sample_state
                [event ''BACKSPACE'' [], event ''TYPE_CHAR'' [(''char'', PyStr ''z'')],
                 event ''BACKSPACE'' []] build_grid_spec sample_truth = Inr out
          \<and> given_cells out = given_cells sample_state
          \<and> (\<forall>cell \<in> given_cells sample_state. grid_letters out cell = grid_letters sample_state cell))"
proof -
  have e: "list_all edit_event [event ''BACKSPACE'' [], event ''TYPE_CHAR'' [(''char'', PyStr ''z'')],
                           event ''BACKSPACE'' []]"
    by (simp add: edit_event_def event_def)
  show ?thesis
    using wf_grid_fixed e edits_keep_given_letters [OF wf_grid_fixed e, of sample_state sample_truth]
    by simp
qed

subsection \<open>Typing and deleting (C3, C4, C10)\<close>

lemma clear_checks_all_none: "clear_checks s = s\<lparr>check_marks := all_none (check_marks s)\<rparr>"
proof -
  have "(\<lambda>cell. map_option (\<lambda>_. Ck_none) (check_marks s cell)) = all_none (check_marks s)"
    by (rule ext) (auto simp: all_none_def)
  then show ?thesis by (simp add: clear_checks_def)
qed

lemma advance_next:
  assumes "slots g sl = Some cells" "distinct cells" "i < length cells"
  shows "advance_within_slot g sl (cells ! i) 1 = Inr (cells ! (if i + 1 < length cells then i + 1 else i))"
proof -
  have "index_of cells (cells ! i) = i" using assms by (simp add: index_of_nth)
  moreover have "nat (int i + 1) = i + 1" by simp
  ultimately show ?thesis
    using assms by (auto simp: advance_within_slot_def Let_def)
qed

lemma advance_prev:
  assumes "slots g sl = Some cells" "distinct cells" "i < length cells"
  shows "advance_within_slot g sl (cells ! i) (- 1) = Inr (cells ! (i - 1))"
proof -
  have idx: "index_of cells (cells ! i) = i" using assms by (simp add: index_of_nth)
  show ?thesis
  proof (cases i)
    case 0
    with assms idx show ?thesis by (simp add: advance_within_slot_def Let_def)
  next
    case (Suc j)
    then have "nat (int i + - 1) = i - 1" by simp
    with assms idx Suc show ?thesis by (auto simp: advance_within_slot_def Let_def)
  qed
qed

lemma merge_seq_same:
  "last_client_seq out = last_client_seq s \<Longrightarrow>
   merge_seq (client_seq_int (payload ev)) out = out\<lparr>last_client_seq := seq_after s ev\<rparr>"
  by (auto simp: merge_seq_def seq_after_def max_def split: option.splits)

lemma reduce_type_char:
  "etype ev = ''TYPE_CHAR'' \<Longrightarrow> on_type_char s (payload ev) g = Inr out \<Longrightarrow>
     last_client_seq out = last_client_seq s \<Longrightarrow>
     reduce s ev g tm = Inr (out\<lparr>last_client_seq := seq_after s ev\<rparr>)"
  by (simp add: reduce_def dispatch_def Let_def merge_seq_same)

lemma reduce_backspace:
  "etype ev = ''BACKSPACE'' \<Longrightarrow> on_backspace s g = Inr out \<Longrightarrow>
     last_client_seq out = last_client_seq s \<Longrightarrow>
     reduce s ev g tm = Inr (out\<lparr>last_client_seq := seq_after s ev\<rparr>)"
  by (simp add: reduce_def dispatch_def Let_def merge_seq_same)

lemma on_type_char_given:
  assumes "is_AZ (py_upper (get_str p ''char''))" "active_cell s \<in> given_cells s"
  shows "on_type_char s p g = Inr (s\<lparr>last_action := ''type:on_given_ignored''\<rparr>)"
  using assms by (simp add: on_type_char_def Let_def)

lemma on_type_char_write:
  assumes "is_AZ (py_upper (get_str p ''char''))" "active_cell s \<notin> given_cells s"
    "slots g (active_slot s) = Some cells" "distinct cells" "i < length cells"
    "active_cell s = cells ! i"
  shows "on_type_char s p g =
     Inr (s\<lparr>grid_letters := (grid_letters s)(cells ! i \<mapsto> py_upper (get_str p ''char'')),
            check_marks := all_none (check_marks s),
            active_cell := cells ! (if i + 1 < length cells then i + 1 else i),
            last_action := ''type''\<rparr>)"
  using assms advance_next [OF assms(3,4,5)]
  by (simp add: on_type_char_def Let_def clear_checks_all_none)

text \<open>
  Claim C3. Let the event be a \<^verbatim>\<open>TYPE_CHAR\<close> whose \<^verbatim>\<open>char\<close> is a single letter \<open>A\<close> to \<open>Z\<close>.
  If the active cell is a given cell, the state returned is the input state but for the
  tag and the sequence counter. If it is not, and it is the \<open>i\<close>-th cell of the active
  slot's cells (the cells of a slot being distinct), then the letter is written into the
  active cell, every cell that has a check mark has the mark \<open>none\<close>, whether in the
  active slot or not, and the active cell is the next cell of the slot, or the same cell
  when it was the last one. Every reachable state of the fixed geometry has its active
  cell at such a position, and its check marks on the playable cells (lemma
  \<open>reachable_position\<close>).
\<close>

theorem type_char_writes_clears_advances:
  assumes "etype ev = ''TYPE_CHAR''" and "payload ev ''char'' = Some (PyStr [ch])" and "is_AZ [ch]"
  shows "(active_cell s \<in> given_cells s \<longrightarrow>
            reduce s ev g tm =
              Inr (s\<lparr>last_action := ''type:on_given_ignored'', last_client_seq := seq_after s ev\<rparr>))
       \<and> (active_cell s \<notin> given_cells s \<and> slots g (active_slot s) = Some cells \<and> distinct cells
            \<and> i < length cells \<and> active_cell s = cells ! i \<longrightarrow>
            reduce s ev g tm =
              Inr (s\<lparr>grid_letters := (grid_letters s)(cells ! i \<mapsto> [ch]),
                     check_marks := all_none (check_marks s),
                     active_cell := cells ! (if i + 1 < length cells then i + 1 else i),
                     last_action := ''type'',
                     last_client_seq := seq_after s ev\<rparr>))"
proof -
  have up: "py_upper (get_str (payload ev) ''char'') = [ch]"
    using assms(2,3) by (auto simp: get_str_def py_upper_def is_AZ_def upper_char_def Let_def)
  have az: "is_AZ (py_upper (get_str (payload ev) ''char''))" using up assms(3) by simp
  show ?thesis
  proof (intro conjI impI)
    assume "active_cell s \<in> given_cells s"
    from on_type_char_given [OF az this, where g=g]
    show "reduce s ev g tm =
              Inr (s\<lparr>last_action := ''type:on_given_ignored'', last_client_seq := seq_after s ev\<rparr>)"
      using reduce_type_char [OF assms(1), where s=s and g=g and tm=tm] by simp
  next
    assume h: "active_cell s \<notin> given_cells s \<and> slots g (active_slot s) = Some cells \<and> distinct cells
            \<and> i < length cells \<and> active_cell s = cells ! i"
    then have h1: "active_cell s \<notin> given_cells s" and h2: "slots g (active_slot s) = Some cells"
      and h3: "distinct cells" and h4: "i < length cells" and h5: "active_cell s = cells ! i"
      by blast+
    have "on_type_char s (payload ev) g =
     Inr (s\<lparr>grid_letters := (grid_letters s)(cells ! i \<mapsto> [ch]),
            check_marks := all_none (check_marks s),
            active_cell := cells ! (if i + 1 < length cells then i + 1 else i),
            last_action := ''type''\<rparr>)"
      using on_type_char_write [OF az h1 h2 h3 h4 h5] unfolding up .
    from reduce_type_char [OF assms(1) this, where tm=tm]
    show "reduce s ev g tm =
              Inr (s\<lparr>grid_letters := (grid_letters s)(cells ! i \<mapsto> [ch]),
                     check_marks := all_none (check_marks s),
                     active_cell := cells ! (if i + 1 < length cells then i + 1 else i),
                     last_action := ''type'',
                     last_client_seq := seq_after s ev\<rparr>)"
      by simp
  qed
qed

lemma fixed_slots_eval:
  "fixed_slots H1 = [(1, 0), (1, 1), (1, 2), (1, 3), (1, 4)]"
  "fixed_slots H2 = [(3, 0), (3, 1), (3, 2), (3, 3), (3, 4)]"
  "fixed_slots V1 = [(0, 1), (1, 1), (2, 1), (3, 1), (4, 1)]"
  "fixed_slots V2 = [(0, 3), (1, 3), (2, 3), (3, 3), (4, 3)]"
  "fixed_slots HW = [(1, 1), (1, 3), (3, 3), (3, 1)]"
  by (simp_all add: py_range_def upt_rec)

declare fixed_slots.simps [simp del]

lemma slots_fixed: "slots build_grid_spec sid = Some (fixed_slots sid)"
  by (simp add: build_grid_spec_def)

theorem type_char_writes_clears_advances_witness:
  "etype (event ''TYPE_CHAR'' [(''char'', PyStr ''K'')]) = ''TYPE_CHAR''
   \<and> payload (event ''TYPE_CHAR'' [(''char'', PyStr ''K'')]) ''char'' = Some (PyStr ''K'')
   \<and> is_AZ ''K''
   \<and> active_cell sample_state \<notin> given_cells sample_state
   \<and> slots build_grid_spec (active_slot sample_state) = Some [(1, 0), (1, 1), (1, 2), (1, 3), (1, 4)]
   \<and> distinct [(1, 0), (1, 1), (1, 2), (1, 3), (1, 4 :: int) :: Cell]
   \<and> active_cell sample_state = [(1, 0), (1, 1), (1, 2), (1, 3), (1, 4)] ! 1
   \<and> reduce sample_state (event ''TYPE_CHAR'' [(''char'', PyStr ''K'')]) build_grid_spec sample_truth
        = Inr (sample_state\<lparr>grid_letters := (grid_letters sample_state)((1, 1) \<mapsto> ''K''),
                 check_marks := all_none (check_marks sample_state),
                 active_cell := (1, 2), last_action := ''type'', last_client_seq := 3\<rparr>)
   \<and> reduce (sample_state\<lparr>active_cell := (1, 0)\<rparr>) (event ''TYPE_CHAR'' [(''char'', PyStr ''K'')])
          build_grid_spec sample_truth
        = Inr (sample_state\<lparr>active_cell := (1, 0), last_action := ''type:on_given_ignored'',
                 last_client_seq := 3\<rparr>)"
proof -
  have h1: "etype (event ''TYPE_CHAR'' [(''char'', PyStr ''K'')]) = ''TYPE_CHAR''"
    and h2: "payload (event ''TYPE_CHAR'' [(''char'', PyStr ''K'')]) ''char'' = Some (PyStr ''K'')"
    and h3: "is_AZ ''K''"
    by (simp_all add: event_def is_AZ_def)
  have h4: "active_cell sample_state \<notin> given_cells sample_state"
    and h5: "slots build_grid_spec (active_slot sample_state) = Some [(1, 0), (1, 1), (1, 2), (1, 3), (1, 4)]"
    and h6: "active_cell sample_state = [(1, 0), (1, 1), (1, 2), (1, 3), (1, 4)] ! 1"
    and h7: "active_cell (sample_state\<lparr>active_cell := (1, 0)\<rparr>) \<in> given_cells (sample_state\<lparr>active_cell := (1, 0)\<rparr>)"
    by (simp_all add: sample_state_def slots_fixed fixed_slots_eval)
  have sq: "seq_after sample_state (event ''TYPE_CHAR'' [(''char'', PyStr ''K'')]) = 3"
    "seq_after (sample_state\<lparr>active_cell := (1, 0)\<rparr>) (event ''TYPE_CHAR'' [(''char'', PyStr ''K'')]) = 3"
    by (simp_all add: seq_after_def client_seq_int_def event_def sample_state_def)
  show ?thesis
    using h1 h2 h3 h4 h5 h6 h7
      type_char_writes_clears_advances [OF h1 h2 h3, of sample_state build_grid_spec sample_truth
        "[(1, 0), (1, 1), (1, 2), (1, 3), (1, 4)]" 1]
      type_char_writes_clears_advances [OF h1 h2 h3, of "sample_state\<lparr>active_cell := (1, 0)\<rparr>"
        build_grid_spec sample_truth "[(1, 0), (1, 1), (1, 2), (1, 3), (1, 4)]" 1]
    by (simp add: sq)
qed

lemma on_backspace_cases:
  assumes "active_cell s \<notin> given_cells s" "slots g (active_slot s) = Some cells" "distinct cells"
    "i < length cells" "active_cell s = cells ! i"
  shows "on_backspace s g =
     Inr (if letter_at s (cells ! i) \<noteq> []
            then s\<lparr>grid_letters := (grid_letters s)(cells ! i \<mapsto> []),
                   check_marks := all_none (check_marks s), last_action := ''backspace:clear''\<rparr>
          else if i = 0 then s\<lparr>last_action := ''backspace:at_start''\<rparr>
          else if cells ! (i - 1) \<in> given_cells s
            then s\<lparr>active_cell := cells ! (i - 1), last_action := ''backspace:prev_is_given''\<rparr>
          else s\<lparr>grid_letters := (grid_letters s)(cells ! (i - 1) \<mapsto> []),
                  check_marks := all_none (check_marks s),
                  active_cell := cells ! (i - 1), last_action := ''backspace:move_clear''\<rparr>)"
proof -
  have ne: "0 < i \<Longrightarrow> cells ! (i - 1) \<noteq> cells ! i"
    using assms(3,4) by (simp add: nth_eq_iff_index_eq)
  show ?thesis
    using assms ne advance_prev [OF assms(2,3,4)]
    by (auto simp: on_backspace_def clear_checks_all_none)
qed

text \<open>
  Claim C4. Let the event be a \<^verbatim>\<open>BACKSPACE\<close>, the active cell not a given cell, and the
  active cell the \<open>i\<close>-th cell of the active slot's cells (which are distinct). If the
  active cell holds a letter, the letter is cleared, all check marks become \<open>none\<close> and
  the active cell stays. If it is empty and \<open>i = 0\<close>, only the tag and the sequence
  counter change. If it is empty and the previous cell of the slot is a given cell, only
  the active cell changes, to that previous cell, and no letter is cleared. Otherwise
  the active cell becomes the previous cell, whose letter is cleared, and all check marks
  become \<open>none\<close>. Every reachable state of the fixed geometry has its active cell at such
  a position (lemma \<open>reachable_position\<close>).
\<close>

theorem backspace_by_cases:
  assumes "etype ev = ''BACKSPACE''" and "active_cell s \<notin> given_cells s"
    and "slots g (active_slot s) = Some cells" and "distinct cells"
    and "i < length cells" and "active_cell s = cells ! i"
  shows "(letter_at s (cells ! i) \<noteq> [] \<longrightarrow>
            reduce s ev g tm =
              Inr (s\<lparr>grid_letters := (grid_letters s)(cells ! i \<mapsto> []),
                     check_marks := all_none (check_marks s),
                     last_action := ''backspace:clear'', last_client_seq := seq_after s ev\<rparr>))
       \<and> (letter_at s (cells ! i) = [] \<and> i = 0 \<longrightarrow>
            reduce s ev g tm =
              Inr (s\<lparr>last_action := ''backspace:at_start'', last_client_seq := seq_after s ev\<rparr>))
       \<and> (letter_at s (cells ! i) = [] \<and> 0 < i \<and> cells ! (i - 1) \<in> given_cells s \<longrightarrow>
            reduce s ev g tm =
              Inr (s\<lparr>active_cell := cells ! (i - 1),
                     last_action := ''backspace:prev_is_given'', last_client_seq := seq_after s ev\<rparr>))
       \<and> (letter_at s (cells ! i) = [] \<and> 0 < i \<and> cells ! (i - 1) \<notin> given_cells s \<longrightarrow>
            reduce s ev g tm =
              Inr (s\<lparr>grid_letters := (grid_letters s)(cells ! (i - 1) \<mapsto> []),
                     check_marks := all_none (check_marks s),
                     active_cell := cells ! (i - 1),
                     last_action := ''backspace:move_clear'', last_client_seq := seq_after s ev\<rparr>))"
proof -
  note b = on_backspace_cases [OF assms(2-6)]
  have "reduce s ev g tm =
     Inr ((if letter_at s (cells ! i) \<noteq> []
            then s\<lparr>grid_letters := (grid_letters s)(cells ! i \<mapsto> []),
                   check_marks := all_none (check_marks s), last_action := ''backspace:clear''\<rparr>
          else if i = 0 then s\<lparr>last_action := ''backspace:at_start''\<rparr>
          else if cells ! (i - 1) \<in> given_cells s
            then s\<lparr>active_cell := cells ! (i - 1), last_action := ''backspace:prev_is_given''\<rparr>
          else s\<lparr>grid_letters := (grid_letters s)(cells ! (i - 1) \<mapsto> []),
                  check_marks := all_none (check_marks s),
                  active_cell := cells ! (i - 1), last_action := ''backspace:move_clear''\<rparr>)
          \<lparr>last_client_seq := seq_after s ev\<rparr>)"
    by (rule reduce_backspace [OF assms(1) b]) simp
  then show ?thesis by auto
qed

lemma mask_at_fixed:
  assumes "0 \<le> r" "r < 5" "0 \<le> c" "c < 5"
  shows "mask_at build_grid_spec (r, c) = Inr (r \<in> {1, 3} \<or> c \<in> {1, 3})"
proof -
  have "nat r < 5" "nat c < 5" "int (nat r) = r" "int (nat c) = c" using assms by simp_all
  then show ?thesis
    by (simp add: mask_at_def build_grid_spec_def py_range_def Let_def)
qed

lemma is_playable_fixed:
  "is_playable build_grid_spec (r, c) =
     Inr (0 \<le> r \<and> r < 5 \<and> 0 \<le> c \<and> c < 5 \<and> (r \<in> {1, 3} \<or> c \<in> {1, 3}))"
proof (cases "0 \<le> r \<and> r < 5 \<and> 0 \<le> c \<and> c < 5")
  case True
  then show ?thesis
    using mask_at_fixed [of r c] by (simp add: is_playable_def build_grid_spec_def)
next
  case False
  then show ?thesis by (auto simp: is_playable_def build_grid_spec_def)
qed

lemma sample_state_fields:
  "given_cells sample_state = {(1, 0)}" "active_cell sample_state = (1, 1)"
  "active_slot sample_state = H1" "orientation sample_state = H"
  "last_client_seq sample_state = 3"
  "grid_letters sample_state (1, 1) = Some []" "grid_letters sample_state (1, 2) = Some []"
  "grid_letters sample_state (0, 1) = Some []" "grid_letters sample_state (1, 0) = Some ''Q''"
  by (simp_all add: sample_state_def is_playable_fixed)

theorem backspace_by_cases_witness:
  "etype (event ''BACKSPACE'' []) = ''BACKSPACE''
   \<and> active_cell sample_state \<notin> given_cells sample_state
   \<and> slots build_grid_spec (active_slot sample_state) = Some [(1, 0), (1, 1), (1, 2), (1, 3), (1, 4)]
   \<and> distinct [(1, 0), (1, 1), (1, 2), (1, 3), (1, 4 :: int) :: Cell]
   \<and> active_cell sample_state = [(1, 0), (1, 1), (1, 2), (1, 3), (1, 4)] ! 1
   \<and> letter_at sample_state (1, 1) = [] \<and> (1, 0) \<in> given_cells sample_state
   \<and> reduce sample_state (event ''BACKSPACE'' []) build_grid_spec sample_truth
        = Inr (sample_state\<lparr>active_cell := (1, 0), last_action := ''backspace:prev_is_given'',
                 last_client_seq := 3\<rparr>)
   \<and> reduce (sample_state\<lparr>active_cell := (1, 2)\<rparr>) (event ''BACKSPACE'' []) build_grid_spec sample_truth
        = Inr (sample_state\<lparr>grid_letters := (grid_letters sample_state)((1, 1) \<mapsto> []),
                 check_marks := all_none (check_marks sample_state),
                 active_cell := (1, 1), last_action := ''backspace:move_clear'',
                 last_client_seq := 3\<rparr>)
   \<and> reduce (sample_state\<lparr>grid_letters := (grid_letters sample_state)((1, 1) \<mapsto> ''B'')\<rparr>)
          (event ''BACKSPACE'' []) build_grid_spec sample_truth
        = Inr (sample_state\<lparr>grid_letters := (grid_letters sample_state)((1, 1) \<mapsto> []),
                 check_marks := all_none (check_marks sample_state),
                 last_action := ''backspace:clear'', last_client_seq := 3\<rparr>)
   \<and> reduce (sample_state\<lparr>active_cell := (0, 1), active_slot := V1\<rparr>)
          (event ''BACKSPACE'' []) build_grid_spec sample_truth
        = Inr (sample_state\<lparr>active_cell := (0, 1), active_slot := V1,
                 last_action := ''backspace:at_start'', last_client_seq := 3\<rparr>)"
proof -
  let ?ev = "event ''BACKSPACE'' []"
  let ?h1 = "[(1, 0), (1, 1), (1, 2), (1, 3), (1, 4 :: int) :: Cell]"
  let ?v1 = "[(0, 1), (1, 1), (2, 1), (3, 1), (4, 1 :: int) :: Cell]"
  have e: "etype ?ev = ''BACKSPACE''" by (simp add: event_def)
  have sq: "seq_after s ?ev = last_client_seq s" for s
    by (simp add: seq_after_def client_seq_int_def event_def)
  have c: "reduce sample_state ?ev build_grid_spec sample_truth
        = Inr (sample_state\<lparr>active_cell := (1, 0), last_action := ''backspace:prev_is_given'',
                 last_client_seq := 3\<rparr>)"
    using backspace_by_cases [OF e, of sample_state build_grid_spec ?h1 1 sample_truth]
    by (simp add: sample_state_fields slots_fixed fixed_slots_eval letter_at_def sq)
  have d: "reduce (sample_state\<lparr>active_cell := (1, 2)\<rparr>) ?ev build_grid_spec sample_truth
        = Inr (sample_state\<lparr>grid_letters := (grid_letters sample_state)((1, 1) \<mapsto> []),
                 check_marks := all_none (check_marks sample_state),
                 active_cell := (1, 1), last_action := ''backspace:move_clear'',
                 last_client_seq := 3\<rparr>)"
    using backspace_by_cases [OF e, of "sample_state\<lparr>active_cell := (1, 2)\<rparr>" build_grid_spec ?h1 2 sample_truth]
    by (simp add: sample_state_fields slots_fixed fixed_slots_eval letter_at_def sq)
  have a: "reduce (sample_state\<lparr>grid_letters := (grid_letters sample_state)((1, 1) \<mapsto> ''B'')\<rparr>)
          ?ev build_grid_spec sample_truth
        = Inr (sample_state\<lparr>grid_letters := (grid_letters sample_state)((1, 1) \<mapsto> []),
                 check_marks := all_none (check_marks sample_state),
                 last_action := ''backspace:clear'', last_client_seq := 3\<rparr>)"
    using backspace_by_cases [OF e, of "sample_state\<lparr>grid_letters := (grid_letters sample_state)((1, 1) \<mapsto> ''B'')\<rparr>"
        build_grid_spec ?h1 1 sample_truth]
    by (simp add: sample_state_fields slots_fixed fixed_slots_eval letter_at_def sq)
  have b: "reduce (sample_state\<lparr>active_cell := (0, 1), active_slot := V1\<rparr>) ?ev build_grid_spec sample_truth
        = Inr (sample_state\<lparr>active_cell := (0, 1), active_slot := V1,
                 last_action := ''backspace:at_start'', last_client_seq := 3\<rparr>)"
    using backspace_by_cases [OF e, of "sample_state\<lparr>active_cell := (0, 1), active_slot := V1\<rparr>"
        build_grid_spec ?v1 0 sample_truth]
    by (simp add: sample_state_fields slots_fixed fixed_slots_eval letter_at_def sq)
  show ?thesis
    using a b c d e
    by (simp add: sample_state_fields slots_fixed fixed_slots_eval letter_at_def)
qed

lemma on_type_char_letter:
  assumes "on_type_char s p g = Inr out" "is_AZ (py_upper (get_str p ''char''))"
    "active_cell s \<notin> given_cells s"
  shows "grid_letters out (active_cell s) = Some (py_upper (get_str p ''char''))"
  using assms
  by (auto simp: on_type_char_def Let_def clear_checks_def split: sum.splits)

lemma upper_char_lower:
  assumes "97 \<le> (of_char ch :: nat)" "(of_char ch :: nat) \<le> 122"
  shows "(of_char (upper_char ch) :: nat) + 32 = of_char ch" and "upper_char (upper_char ch) = upper_char ch"
    and "is_AZ [upper_char ch]"
  using assms by (auto simp: upper_char_def Let_def is_AZ_def)

text \<open>
  Claim C10. A \<^verbatim>\<open>TYPE_CHAR\<close> whose \<^verbatim>\<open>char\<close> is one lowercase letter \<open>a\<close> to \<open>z\<close> is reduced to
  the very state that the event with the uppercase letter in its place is reduced to; the
  uppercase letter is the one 32 code points below, and it is the letter stored in the
  cell that was active, when that cell is not a given cell.
\<close>

theorem lowercase_char_is_uppercased:
  assumes "wf_grid g" and "etype ev = ''TYPE_CHAR''" and "payload ev ''char'' = Some (PyStr [ch])"
    and "97 \<le> (of_char ch :: nat)" and "(of_char ch :: nat) \<le> 122"
  shows "\<exists>out. reduce s ev g tm = Inr out
           \<and> reduce s (ev\<lparr>payload := (payload ev)(''char'' \<mapsto> PyStr [upper_char ch])\<rparr>) g tm = Inr out
           \<and> is_AZ [upper_char ch] \<and> (of_char (upper_char ch) :: nat) + 32 = of_char ch
           \<and> (active_cell s \<notin> given_cells s \<longrightarrow>
                grid_letters out (active_cell s) = Some [upper_char ch])"
proof -
  let ?ev' = "ev\<lparr>payload := (payload ev)(''char'' \<mapsto> PyStr [upper_char ch])\<rparr>"
  note u = upper_char_lower [OF assms(4,5)]
  have up: "py_upper (get_str (payload ev) ''char'') = [upper_char ch]"
    using assms(3) by (simp add: get_str_def py_upper_def)
  have up': "py_upper (get_str (payload ?ev') ''char'') = [upper_char ch]"
    using u(2) by (simp add: get_str_def py_upper_def)
  have ty: "on_type_char s (payload ?ev') g = on_type_char s (payload ev) g"
    unfolding on_type_char_def up up' ..
  have cs: "client_seq_int (payload ?ev') = client_seq_int (payload ev)"
    by (simp add: client_seq_int_def)
  have same: "reduce s ?ev' g tm = reduce s ev g tm"
    using assms(2) ty cs by (simp add: reduce_def dispatch_def Let_def split: sum.splits)
  from reduce_total [OF assms(1)] obtain out where out: "reduce s ev g tm = Inr out" by blast
  then obtain mid where mid: "on_type_char s (payload ev) g = Inr mid"
    and om: "out = merge_seq (client_seq_int (payload ev)) mid"
    using assms(2) by (auto simp: reduce_def dispatch_def Let_def split: sum.splits)
  have "active_cell s \<notin> given_cells s \<Longrightarrow> grid_letters out (active_cell s) = Some [upper_char ch]"
    using on_type_char_letter [OF mid] u(3) up om by (simp add: merge_seq_fields)
  with out same u show ?thesis by simp
qed

theorem lowercase_char_is_uppercased_witness:
  "wf_grid build_grid_spec
   \<and> etype (event ''TYPE_CHAR'' [(''char'', PyStr ''k'')]) = ''TYPE_CHAR''
   \<and> payload (event ''TYPE_CHAR'' [(''char'', PyStr ''k'')]) ''char'' = Some (PyStr ''k'')
   \<and> 97 \<le> (of_char CHR ''k'' :: nat) \<and> (of_char CHR ''k'' :: nat) \<le> 122
   \<and> active_cell sample_state \<notin> given_cells sample_state
   \<and> (\<exists>out. reduce sample_state (event ''TYPE_CHAR'' [(''char'', PyStr ''k'')]) build_grid_spec sample_truth = Inr out
          \<and> reduce sample_state (event ''TYPE_CHAR'' [(''char'', PyStr ''K'')]) build_grid_spec sample_truth = Inr out
          \<and> grid_letters out (1, 1) = Some ''K'')"
proof -
  have h2: "etype (event ''TYPE_CHAR'' [(''char'', PyStr ''k'')]) = ''TYPE_CHAR''"
    and h3: "payload (event ''TYPE_CHAR'' [(''char'', PyStr ''k'')]) ''char'' = Some (PyStr ''k'')"
    and h4: "97 \<le> (of_char CHR ''k'' :: nat)" and h5: "(of_char CHR ''k'' :: nat) \<le> 122"
    by (simp_all add: event_def)
  have k: "upper_char CHR ''k'' = CHR ''K''" by code_simp
  have ev: "(event ''TYPE_CHAR'' [(''char'', PyStr ''k'')])\<lparr>payload :=
       (payload (event ''TYPE_CHAR'' [(''char'', PyStr ''k'')]))(''char'' \<mapsto> PyStr [upper_char CHR ''k''])\<rparr>
     = event ''TYPE_CHAR'' [(''char'', PyStr ''K'')]"
    by (simp add: event_def k)
  show ?thesis
    using wf_grid_fixed h2 h3 h4 h5
      lowercase_char_is_uppercased [OF wf_grid_fixed h2 h3 h4 h5, of sample_state sample_truth]
    unfolding ev
    by (auto simp: sample_state_fields k)
qed

subsection \<open>The memberships of the fixed geometry\<close>

lemma fold_add_membership:
  "distinct cells \<Longrightarrow>
     fold (add_membership sid) cells m cell =
       (if cell \<in> set cells then Some ((case m cell of None \<Rightarrow> [] | Some l \<Rightarrow> l) @ [sid]) else m cell)"
proof (induction cells arbitrary: m)
  case Nil
  then show ?case by simp
next
  case (Cons x xs)
  then show ?case by (auto simp: add_membership_def)
qed

lemma build_cell_to_slots_fold:
  "\<forall>sid \<in> set keys. distinct (sl sid) \<Longrightarrow>
     fold (\<lambda>sid m. fold (add_membership sid) (sl sid) m) keys m0 cell =
       (if filter (\<lambda>sid. cell \<in> set (sl sid)) keys = [] then m0 cell
        else Some ((case m0 cell of None \<Rightarrow> [] | Some l \<Rightarrow> l) @ filter (\<lambda>sid. cell \<in> set (sl sid)) keys))"
proof (induction keys arbitrary: m0)
  case Nil
  then show ?case by simp
next
  case (Cons k ks)
  then show ?case by (simp add: fold_add_membership)
qed

lemma distinct_fixed_slots: "distinct (fixed_slots sid)"
  by (cases sid) (simp_all add: fixed_slots_eval)

text \<open>
  In the fixed geometry the memberships of a cell are the slots that contain it, in the
  order \<open>h1, h2, v1, v2, hw\<close>.
\<close>

lemma cell_to_slots_fixed:
  "cell_to_slots build_grid_spec cell =
     (if filter (\<lambda>sid. cell \<in> set (fixed_slots sid)) slot_keys = [] then None
      else Some (filter (\<lambda>sid. cell \<in> set (fixed_slots sid)) slot_keys))"
  by (simp add: build_grid_spec_def build_cell_to_slots_def build_cell_to_slots_fold distinct_fixed_slots)

lemma cell_to_slots_samples:
  "cell_to_slots build_grid_spec (0, 1) = Some [V1]"
  "cell_to_slots build_grid_spec (1, 1) = Some [H1, V1, HW]"
  "cell_to_slots build_grid_spec (1, 2) = Some [H1]"
  "cell_to_slots build_grid_spec (2, 1) = Some [V1]"
  "cell_to_slots build_grid_spec (1, 0) = Some [H1]"
  by (simp_all add: cell_to_slots_fixed slot_keys_def fixed_slots_eval)

subsection \<open>Cycling through the slots (C7)\<close>

lemma tab_slot_index:
  assumes "i < 5"
  shows "tab_slot (SLOT_ORDER ! i) True = SLOT_ORDER ! nat ((int i + 1) mod 5)"
    and "tab_slot (SLOT_ORDER ! i) False = SLOT_ORDER ! nat ((int i - 1) mod 5)"
proof -
  from assms have "i = 0 \<or> i = 1 \<or> i = 2 \<or> i = 3 \<or> i = 4" by arith
  then show "tab_slot (SLOT_ORDER ! i) True = SLOT_ORDER ! nat ((int i + 1) mod 5)"
    and "tab_slot (SLOT_ORDER ! i) False = SLOT_ORDER ! nat ((int i - 1) mod 5)"
    by (auto simp: tab_slot_def SLOT_ORDER_def)
qed

lemma reduce_tab:
  "etype ev = ''TAB'' \<or> etype ev = ''SHIFT_TAB'' \<Longrightarrow>
     on_tab s g (etype ev = ''TAB'') = Inr out \<Longrightarrow> last_client_seq out = last_client_seq s \<Longrightarrow>
     reduce s ev g tm = Inr (out\<lparr>last_client_seq := seq_after s ev\<rparr>)"
  by (auto simp: reduce_def dispatch_def Let_def merge_seq_same)

text \<open>
  Claim C7. On a well-formed geometry, when the active slot is the \<open>i\<close>-th of
  \<open>[h1, h2, v1, v2, hw]\<close> (across-1, across-2, down-1, down-2, hidden-word), \<^verbatim>\<open>TAB\<close> makes
  the slot of index \<open>(i + 1) mod 5\<close> the active slot and \<^verbatim>\<open>SHIFT_TAB\<close> the slot of index
  \<open>(i - 1) mod 5\<close>; the active cell becomes the first cell of that slot; the orientation
  becomes across for \<open>h1, h2\<close>, down for \<open>v1, v2\<close>, and is left as it was for \<open>hw\<close>.
  Nothing else changes but the tag and the sequence counter.
\<close>

theorem tab_cycles_slot_order:
  assumes "wf_grid g" and "i < 5" and "active_slot s = SLOT_ORDER ! i"
    and "etype ev = ''TAB'' \<or> etype ev = ''SHIFT_TAB''"
    and "slot = SLOT_ORDER ! nat ((int i + (if etype ev = ''TAB'' then 1 else - 1)) mod 5)"
  shows "\<exists>first rest. slots g slot = Some (first # rest)
           \<and> reduce s ev g tm =
               Inr (s\<lparr>active_slot := slot, active_cell := first,
                      orientation := (if slot = H1 \<or> slot = H2 then H
                                      else if slot = V1 \<or> slot = V2 then V else orientation s),
                      last_action := ''tab'', last_client_seq := seq_after s ev\<rparr>)"
proof -
  have sl: "tab_slot (active_slot s) (etype ev = ''TAB'') = slot"
    using assms(3,4,5) tab_slot_index [OF assms(2)] by auto
  from wf_grid_slots [OF assms(1)] obtain first rest where fr: "slots g slot = Some (first # rest)"
    by blast
  have "on_tab s g (etype ev = ''TAB'') =
          Inr (s\<lparr>active_slot := slot, active_cell := first,
                 orientation := (if slot = H1 \<or> slot = H2 then H
                                 else if slot = V1 \<or> slot = V2 then V else orientation s),
                 last_action := ''tab''\<rparr>)"
    by (simp add: on_tab_def sl fr Let_def)
  from reduce_tab [OF assms(4) this, of tm] fr show ?thesis by simp
qed

theorem tab_cycles_slot_order_witness:
  "wf_grid build_grid_spec \<and> (4 :: nat) < 5 \<and> (0 :: nat) < 5
   \<and> active_slot (sample_state\<lparr>active_slot := HW\<rparr>) = SLOT_ORDER ! 4
   \<and> active_slot sample_state = SLOT_ORDER ! 0
   \<and> H1 = SLOT_ORDER ! nat ((int 4 + 1) mod 5)
   \<and> HW = SLOT_ORDER ! nat ((int 0 + - 1) mod 5)
   \<and> reduce (sample_state\<lparr>active_slot := HW, orientation := V\<rparr>) (event ''TAB'' []) build_grid_spec sample_truth
        = Inr (sample_state\<lparr>active_slot := H1, active_cell := (1, 0), orientation := H,
                 last_action := ''tab'', last_client_seq := 3\<rparr>)
   \<and> reduce (sample_state\<lparr>orientation := V\<rparr>) (event ''SHIFT_TAB'' []) build_grid_spec sample_truth
        = Inr (sample_state\<lparr>active_slot := HW, active_cell := (1, 1), orientation := V,
                 last_action := ''tab'', last_client_seq := 3\<rparr>)"
proof -
  have sq: "seq_after s (event t []) = last_client_seq s" for s t
    by (simp add: seq_after_def client_seq_int_def event_def)
  have a: "H1 = SLOT_ORDER ! nat ((int 4 + (if etype (event ''TAB'' []) = ''TAB'' then 1 else - 1)) mod 5)"
    and b: "HW = SLOT_ORDER ! nat ((int 0 + (if etype (event ''SHIFT_TAB'' []) = ''TAB'' then 1 else - 1)) mod 5)"
    by (simp_all add: SLOT_ORDER_def event_def)
  have s4: "active_slot (sample_state\<lparr>active_slot := HW, orientation := V\<rparr>) = SLOT_ORDER ! 4"
    and s0: "active_slot (sample_state\<lparr>orientation := V\<rparr>) = SLOT_ORDER ! 0"
    by (simp_all add: SLOT_ORDER_def sample_state_fields)
  have e1: "etype (event ''TAB'' []) = ''TAB'' \<or> etype (event ''TAB'' []) = ''SHIFT_TAB''"
    and e2: "etype (event ''SHIFT_TAB'' []) = ''TAB'' \<or> etype (event ''SHIFT_TAB'' []) = ''SHIFT_TAB''"
    by (simp_all add: event_def)
  have l4: "(4 :: nat) < 5" and l0: "(0 :: nat) < 5" by simp_all
  show ?thesis
    using tab_cycles_slot_order [OF wf_grid_fixed l4 s4 e1 a, of sample_truth]
      tab_cycles_slot_order [OF wf_grid_fixed l0 s0 e2 b, of sample_truth]
      wf_grid_fixed
    by (simp add: slots_fixed fixed_slots_eval sq sample_state_fields SLOT_ORDER_def)
qed

subsection \<open>Clicking (C6)\<close>

lemma flip_flip: "flip (flip ori) = ori" "flip ori \<noteq> ori"
  by (cases ori; simp add: flip_def)+

lemma on_click_cell_playable:
  assumes "parse_cell_id (get_str p ''cell_id'') = Some cell" "is_playable g cell = Inr True"
  shows "on_click_cell s p g =
     Inr (s\<lparr>active_cell := cell,
            orientation := (if cell = active_cell s \<and> has_h g cell \<and> has_v g cell
                            then flip (orientation s) else orientation s),
            active_slot := resolve_active_slot g cell
                             (if cell = active_cell s \<and> has_h g cell \<and> has_v g cell
                              then flip (orientation s) else orientation s) False,
            last_action := ''click''\<rparr>)"
  using assms by (simp add: on_click_cell_def Let_def)

lemma reduce_click:
  "etype ev = ''CLICK_CELL'' \<Longrightarrow> on_click_cell s (payload ev) g = Inr out \<Longrightarrow>
     last_client_seq out = last_client_seq s \<Longrightarrow>
     reduce s ev g tm = Inr (out\<lparr>last_client_seq := seq_after s ev\<rparr>)"
  by (simp add: reduce_def dispatch_def Let_def merge_seq_same)

text \<open>
  Claim C6. Let the event be a \<^verbatim>\<open>CLICK_CELL\<close> whose cell id parses to a playable cell. If
  that cell is the active cell and has both an across slot and a down slot among its
  memberships, the click flips the orientation and resolves the active slot for the new
  orientation, and a second click on it restores the first orientation and resolves the
  active slot for it again. If the cell is not the active cell, the orientation is the same
  after the click, and the cell clicked is the active cell.
\<close>

theorem click_toggles_only_on_active_crossing:
  assumes "etype ev = ''CLICK_CELL''"
    and "parse_cell_id (get_str (payload ev) ''cell_id'') = Some cell"
    and "is_playable g cell = Inr True"
  shows "(cell = active_cell s \<and> has_h g cell \<and> has_v g cell \<longrightarrow>
            (\<exists>s1 s2. reduce s ev g tm = Inr s1 \<and> active_cell s1 = cell
               \<and> orientation s1 = flip (orientation s) \<and> orientation s1 \<noteq> orientation s
               \<and> active_slot s1 = resolve_active_slot g cell (flip (orientation s)) False
               \<and> reduce s1 ev g tm = Inr s2 \<and> active_cell s2 = cell
               \<and> orientation s2 = orientation s
               \<and> active_slot s2 = resolve_active_slot g cell (orientation s) False))
       \<and> (cell \<noteq> active_cell s \<longrightarrow>
            (\<exists>s1. reduce s ev g tm = Inr s1 \<and> active_cell s1 = cell
               \<and> orientation s1 = orientation s
               \<and> active_slot s1 = resolve_active_slot g cell (orientation s) False))"
proof -
  have r: "reduce st ev g tm =
     Inr (st\<lparr>active_cell := cell,
            orientation := (if cell = active_cell st \<and> has_h g cell \<and> has_v g cell
                            then flip (orientation st) else orientation st),
            active_slot := resolve_active_slot g cell
                             (if cell = active_cell st \<and> has_h g cell \<and> has_v g cell
                              then flip (orientation st) else orientation st) False,
            last_action := ''click'', last_client_seq := seq_after st ev\<rparr>)" for st
    using reduce_click [OF assms(1) on_click_cell_playable [OF assms(2,3)], of st tm] by simp
  show ?thesis
  proof (intro conjI impI)
    assume h: "cell = active_cell s \<and> has_h g cell \<and> has_v g cell"
    let ?s1 = "s\<lparr>active_cell := cell, orientation := flip (orientation s),
            active_slot := resolve_active_slot g cell (flip (orientation s)) False,
            last_action := ''click'', last_client_seq := seq_after s ev\<rparr>"
    have 1: "reduce s ev g tm = Inr ?s1" using r [of s] h by auto
    let ?s2 = "?s1\<lparr>active_cell := cell, orientation := orientation s,
            active_slot := resolve_active_slot g cell (orientation s) False,
            last_action := ''click'', last_client_seq := seq_after ?s1 ev\<rparr>"
    have 2: "reduce ?s1 ev g tm = Inr ?s2"
      using r [of ?s1] h by (auto simp: flip_flip)
    have 3: "active_cell ?s1 = cell \<and> orientation ?s1 = flip (orientation s)
        \<and> orientation ?s1 \<noteq> orientation s
        \<and> active_slot ?s1 = resolve_active_slot g cell (flip (orientation s)) False
        \<and> active_cell ?s2 = cell \<and> orientation ?s2 = orientation s
        \<and> active_slot ?s2 = resolve_active_slot g cell (orientation s) False"
      by (simp add: flip_flip)
    show "\<exists>s1 s2. reduce s ev g tm = Inr s1 \<and> active_cell s1 = cell
               \<and> orientation s1 = flip (orientation s) \<and> orientation s1 \<noteq> orientation s
               \<and> active_slot s1 = resolve_active_slot g cell (flip (orientation s)) False
               \<and> reduce s1 ev g tm = Inr s2 \<and> active_cell s2 = cell
               \<and> orientation s2 = orientation s
               \<and> active_slot s2 = resolve_active_slot g cell (orientation s) False"
      using 1 2 3 by blast
  next
    assume "cell \<noteq> active_cell s"
    then show "\<exists>s1. reduce s ev g tm = Inr s1 \<and> active_cell s1 = cell
               \<and> orientation s1 = orientation s
               \<and> active_slot s1 = resolve_active_slot g cell (orientation s) False"
      using r [of s] by simp
  qed
qed

lemma resolve_samples:
  "resolve_active_slot build_grid_spec (1, 1) H False = H1"
  "resolve_active_slot build_grid_spec (1, 1) V False = V1"
  "resolve_active_slot build_grid_spec (1, 2) H False = H1"
  "resolve_active_slot build_grid_spec (1, 2) V False = H1"
  "resolve_active_slot build_grid_spec (0, 1) H False = V1"
  "resolve_active_slot build_grid_spec (2, 1) V False = V1"
  "resolve_active_slot build_grid_spec (1, 0) H False = H1"
  by (simp_all add: resolve_active_slot_def cell_to_slots_samples)

lemma parse_cell_id_samples:
  "parse_cell_id ''1,1'' = Some (1, 1)" "parse_cell_id ''1, 2'' = Some (1, 2)"
  by (simp_all add: parse_cell_id_def py_int_str_def parse_unsigned_def is_digit_def digit_val_def
      int_space_def)

theorem click_toggles_only_on_active_crossing_witness:
  "etype (event ''CLICK_CELL'' [(''cell_id'', PyStr ''1,1'')]) = ''CLICK_CELL''
   \<and> parse_cell_id (get_str (payload (event ''CLICK_CELL'' [(''cell_id'', PyStr ''1,1'')])) ''cell_id'') = Some (1, 1)
   \<and> is_playable build_grid_spec (1, 1) = Inr True
   \<and> (1, 1) = active_cell sample_state \<and> has_h build_grid_spec (1, 1) \<and> has_v build_grid_spec (1, 1)
   \<and> orientation sample_state = H
   \<and> (\<exists>s1 s2. reduce sample_state (event ''CLICK_CELL'' [(''cell_id'', PyStr ''1,1'')]) build_grid_spec sample_truth = Inr s1
         \<and> orientation s1 = V \<and> active_slot s1 = V1
         \<and> reduce s1 (event ''CLICK_CELL'' [(''cell_id'', PyStr ''1,1'')]) build_grid_spec sample_truth = Inr s2
         \<and> orientation s2 = H \<and> active_slot s2 = H1)
   \<and> etype (event ''CLICK_CELL'' [(''cell_id'', PyStr ''1, 2'')]) = ''CLICK_CELL''
   \<and> parse_cell_id (get_str (payload (event ''CLICK_CELL'' [(''cell_id'', PyStr ''1, 2'')])) ''cell_id'') = Some (1, 2)
   \<and> is_playable build_grid_spec (1, 2) = Inr True \<and> (1, 2) \<noteq> active_cell sample_state
   \<and> (\<exists>s1. reduce (sample_state\<lparr>orientation := V, active_slot := V1\<rparr>)
               (event ''CLICK_CELL'' [(''cell_id'', PyStr ''1, 2'')]) build_grid_spec sample_truth = Inr s1
         \<and> active_cell s1 = (1, 2) \<and> orientation s1 = V \<and> active_slot s1 = H1)"
proof -
  let ?e1 = "event ''CLICK_CELL'' [(''cell_id'', PyStr ''1,1'')]"
  let ?e2 = "event ''CLICK_CELL'' [(''cell_id'', PyStr ''1, 2'')]"
  have t1: "etype ?e1 = ''CLICK_CELL''" and t2: "etype ?e2 = ''CLICK_CELL''"
    by (simp_all add: event_def)
  have p1: "parse_cell_id (get_str (payload ?e1) ''cell_id'') = Some (1, 1)"
    and p2: "parse_cell_id (get_str (payload ?e2) ''cell_id'') = Some (1, 2)"
    by (simp_all add: event_def get_str_def parse_cell_id_samples)
  have q1: "is_playable build_grid_spec (1, 1) = Inr True"
    and q2: "is_playable build_grid_spec (1, 2) = Inr True"
    by (simp_all add: is_playable_fixed)
  have hv: "has_h build_grid_spec (1, 1)" "has_v build_grid_spec (1, 1)"
    by (simp_all add: has_h_def has_v_def cell_to_slots_samples)
  have fl: "flip H = V" by (simp add: flip_def)
  show ?thesis
    using t1 t2 p1 p2 q1 q2 hv
      click_toggles_only_on_active_crossing [OF t1 p1 q1, of sample_state sample_truth]
      click_toggles_only_on_active_crossing [OF t2 p2 q2,
        of "sample_state\<lparr>orientation := V, active_slot := V1\<rparr>" sample_truth]
    by (auto simp: sample_state_fields resolve_samples fl)
qed

subsection \<open>Arrows (C8)\<close>

lemma ray_shift: "ray (r + dr, c + dc) (dr, dc) j = ray (r, c) (dr, dc) (Suc j)"
  by (simp add: ray_def algebra_simps)

lemma blocked_before_shift:
  assumes "blocked_before g (r, c) (dr, dc) (Suc k)"
  shows "blocked_before g (r + dr, c + dc) (dr, dc) k"
  unfolding blocked_before_def
proof (intro allI impI)
  fix j assume "1 \<le> j \<and> j < k"
  then have "1 \<le> Suc j \<and> Suc j < Suc k" by simp
  with assms show "in_bounds g (ray (r + dr, c + dc) (dr, dc) j)
      \<and> is_playable g (ray (r + dr, c + dc) (dr, dc) j) = Inr False"
    unfolding blocked_before_def ray_shift by blast
qed

lemma arrow_loop_Suc:
  "arrow_loop (Suc n) s g d dr dc ori r c =
     (if \<not> in_bounds g (r + dr, c + dc)
        then Inr (s\<lparr>orientation := ori,
                    active_slot := resolve_active_slot g (active_cell s) ori False,
                    last_action := ''arrow:edge''\<rparr>)
      else (case is_playable g (r + dr, c + dc) of
              Inl e \<Rightarrow> Inl e
            | Inr True \<Rightarrow>
                Inr (s\<lparr>active_cell := (r + dr, c + dc), orientation := ori,
                       active_slot := resolve_active_slot g (r + dr, c + dc) ori False,
                       last_action := ''arrow:'' @ py_lower d\<rparr>)
            | Inr False \<Rightarrow> arrow_loop n s g d dr dc ori (r + dr) (c + dc)))"
  by (auto simp: in_bounds_def Let_def)

lemma is_playable_True_in_bounds: "is_playable g cell = Inr True \<Longrightarrow> in_bounds g cell"
  by (cases cell) (auto simp: is_playable_def in_bounds_def split: if_splits)

lemma ray_one: "ray (r, c) (dr, dc) (Suc 0) = (r + dr, c + dc)"
  by (simp add: ray_def)

lemma blocked_before_first:
  "blocked_before g (r, c) (dr, dc) (Suc (Suc k)) \<Longrightarrow>
     in_bounds g (r + dr, c + dc) \<and> is_playable g (r + dr, c + dc) = Inr False"
  unfolding blocked_before_def using ray_one [of r c dr dc]
  by (metis One_nat_def Suc_less_eq le_refl zero_less_Suc)

lemma arrow_loop_edge:
  "blocked_before g (r, c) (dr, dc) k \<Longrightarrow> 1 \<le> k \<Longrightarrow> k \<le> n \<Longrightarrow>
   \<not> in_bounds g (ray (r, c) (dr, dc) k) \<Longrightarrow>
     arrow_loop n s g d dr dc ori r c =
       Inr (s\<lparr>orientation := ori,
              active_slot := resolve_active_slot g (active_cell s) ori False,
              last_action := ''arrow:edge''\<rparr>)"
proof (induction n arbitrary: r c k)
  case 0
  then show ?case by simp
next
  case (Suc n)
  from Suc.prems(2) obtain k' where k: "k = Suc k'" by (cases k) auto
  show ?case
  proof (cases k')
    case 0
    with Suc.prems(4) k have "\<not> in_bounds g (r + dr, c + dc)" by (simp add: ray_one)
    then show ?thesis by (simp add: arrow_loop_Suc del: arrow_loop.simps)
  next
    case (Suc k'')
    from blocked_before_first [of g r c dr dc k''] Suc.prems(1) k Suc
    have first: "in_bounds g (r + dr, c + dc)" "is_playable g (r + dr, c + dc) = Inr False"
      by simp_all
    have bb: "blocked_before g (r + dr, c + dc) (dr, dc) k'"
      using blocked_before_shift Suc.prems(1) k by simp
    have out: "\<not> in_bounds g (ray (r + dr, c + dc) (dr, dc) k')"
      using Suc.prems(4) k by (simp add: ray_shift)
    have "1 \<le> k'" "k' \<le> n" using Suc k Suc.prems(3) by simp_all
    from Suc.IH [OF bb this out] first show ?thesis
      by (simp add: arrow_loop_Suc del: arrow_loop.simps)
  qed
qed

lemma arrow_loop_move:
  "blocked_before g (r, c) (dr, dc) k \<Longrightarrow> 1 \<le> k \<Longrightarrow> k \<le> n \<Longrightarrow>
   is_playable g (ray (r, c) (dr, dc) k) = Inr True \<Longrightarrow>
     arrow_loop n s g d dr dc ori r c =
       Inr (s\<lparr>active_cell := ray (r, c) (dr, dc) k, orientation := ori,
              active_slot := resolve_active_slot g (ray (r, c) (dr, dc) k) ori False,
              last_action := ''arrow:'' @ py_lower d\<rparr>)"
proof (induction n arbitrary: r c k)
  case 0
  then show ?case by simp
next
  case (Suc n)
  from Suc.prems(2) obtain k' where k: "k = Suc k'" by (cases k) auto
  show ?case
  proof (cases k')
    case 0
    with Suc.prems(4) k have p: "is_playable g (r + dr, c + dc) = Inr True" by (simp add: ray_one)
    from is_playable_True_in_bounds [OF p] p show ?thesis
      by (simp add: arrow_loop_Suc k 0 ray_one del: arrow_loop.simps)
  next
    case (Suc k'')
    from blocked_before_first [of g r c dr dc k''] Suc.prems(1) k Suc
    have first: "in_bounds g (r + dr, c + dc)" "is_playable g (r + dr, c + dc) = Inr False"
      by simp_all
    have bb: "blocked_before g (r + dr, c + dc) (dr, dc) k'"
      using blocked_before_shift Suc.prems(1) k by simp
    have pl: "is_playable g (ray (r + dr, c + dc) (dr, dc) k') = Inr True"
      using Suc.prems(4) k by (simp add: ray_shift)
    have "1 \<le> k'" "k' \<le> n" using Suc k Suc.prems(3) by simp_all
    from Suc.IH [OF bb this pl] first show ?thesis
      by (simp add: arrow_loop_Suc ray_shift k del: arrow_loop.simps)
  qed
qed

lemma square_ge: "(1 :: int) \<le> n \<Longrightarrow> n \<le> n * n"
  using mult_left_mono [of 1 n n] by simp

lemma steps_bound:
  assumes "blocked_before g start (dr, dc) k" "1 \<le> k"
    and "(dr, dc) \<in> {(0, - 1), (0, 1), (- 1, 0), (1, 0)}"
    and "2 \<le> grid_size g \<or> in_bounds g start"
  shows "k \<le> nat (grid_size g * grid_size g)"
proof -
  have lin: "(2 \<le> grid_size g \<and> int k \<le> grid_size g + 1) \<or> (1 \<le> grid_size g \<and> int k \<le> grid_size g)"
  proof (cases "k = 1")
    case True
    with assms(4) show ?thesis by (auto simp: in_bounds_def)
  next
    case False
    with assms(2) have "1 \<le> (1::nat) \<and> 1 < k" "1 \<le> k - 1 \<and> k - 1 < k" by auto
    with assms(1) have "in_bounds g (ray start (dr, dc) 1)" "in_bounds g (ray start (dr, dc) (k - 1))"
      unfolding blocked_before_def by blast+
    moreover have "int (k - 1) = int k - 1" using assms(2) by simp
    ultimately show ?thesis
      using assms(3,4) by (auto simp: in_bounds_def ray_def)
  qed
  then have "int k \<le> grid_size g * grid_size g"
  proof
    assume a: "2 \<le> grid_size g \<and> int k \<le> grid_size g + 1"
    then have "grid_size g * 2 \<le> grid_size g * grid_size g"
      using mult_left_mono [of 2 "grid_size g" "grid_size g"] by simp
    with a show ?thesis by linarith
  next
    assume a: "1 \<le> grid_size g \<and> int k \<le> grid_size g"
    with square_ge [of "grid_size g"] show ?thesis by linarith
  qed
  then show ?thesis by linarith
qed

lemma step_dir_cases:
  assumes "d \<in> set DIRS" "step_dir d = (dr, dc, ori)"
  shows "(dr, dc) \<in> {(0, - 1), (0, 1), (- 1, 0), (1, 0)}"
    and "ori = (if d = ''LEFT'' \<or> d = ''RIGHT'' then H else V)"
  using assms by (auto simp: DIRS_def step_dir_def)

lemma reduce_arrow:
  "etype ev = ''ARROW'' \<Longrightarrow> on_arrow s (payload ev) g = Inr out \<Longrightarrow>
     last_client_seq out = last_client_seq s \<Longrightarrow>
     reduce s ev g tm = Inr (out\<lparr>last_client_seq := seq_after s ev\<rparr>)"
  by (simp add: reduce_def dispatch_def Let_def merge_seq_same)

text \<open>
  Claim C8. Let the event be an \<^verbatim>\<open>ARROW\<close> whose \<^verbatim>\<open>dir\<close>, in upper case, is one of the four
  directions, with the unit step and the orientation \<^verbatim>\<open>_step_dir\<close> gives for it
  (\<^verbatim>\<open>LEFT\<close>, \<^verbatim>\<open>RIGHT\<close>: across; \<^verbatim>\<open>UP\<close>, \<^verbatim>\<open>DOWN\<close>: down), in a grid of size at least 2 or with
  the active cell inside the grid. Let the first \<open>k - 1\<close> cells met from the active cell be
  inside the grid and not playable. If the \<open>k\<close>-th cell is outside the grid, the active
  cell stays, the orientation is the implied one, the active slot is resolved at the
  active cell for that orientation, and the tag is \<^verbatim>\<open>arrow:edge\<close>. If the \<open>k\<close>-th cell is
  playable, it becomes the active cell, with the implied orientation and the active slot
  resolved at it.
\<close>

theorem arrow_stops_at_edge_or_moves:
  assumes "etype ev = ''ARROW''" and "d = py_upper (get_str (payload ev) ''dir'')"
    and "d \<in> set DIRS" and "step_dir d = (dr, dc, ori)"
    and "2 \<le> grid_size g \<or> in_bounds g (active_cell s)"
    and "1 \<le> k" and "blocked_before g (active_cell s) (dr, dc) k"
  shows "ori = (if d = ''LEFT'' \<or> d = ''RIGHT'' then H else V)
       \<and> (\<not> in_bounds g (ray (active_cell s) (dr, dc) k) \<longrightarrow>
            reduce s ev g tm =
              Inr (s\<lparr>orientation := ori,
                     active_slot := resolve_active_slot g (active_cell s) ori False,
                     last_action := ''arrow:edge'', last_client_seq := seq_after s ev\<rparr>))
       \<and> (is_playable g (ray (active_cell s) (dr, dc) k) = Inr True \<longrightarrow>
            reduce s ev g tm =
              Inr (s\<lparr>active_cell := ray (active_cell s) (dr, dc) k, orientation := ori,
                     active_slot := resolve_active_slot g (ray (active_cell s) (dr, dc) k) ori False,
                     last_action := ''arrow:'' @ py_lower d, last_client_seq := seq_after s ev\<rparr>))"
proof -
  note sd = step_dir_cases [OF assms(3,4)]
  have kn: "k \<le> nat (grid_size g * grid_size g)"
    using steps_bound [OF assms(7,6) sd(1) assms(5)] .
  have nz: "\<not> (dr = 0 \<and> dc = 0)" using sd(1) by auto
  have oa: "on_arrow s (payload ev) g =
      arrow_loop (nat (grid_size g * grid_size g)) s g d dr dc ori (fst (active_cell s)) (snd (active_cell s))"
    using assms(2,4) nz by (auto simp: on_arrow_def Let_def)
  have bb: "blocked_before g (fst (active_cell s), snd (active_cell s)) (dr, dc) k"
    using assms(7) by simp
  show ?thesis
  proof (intro conjI impI)
    show "ori = (if d = ''LEFT'' \<or> d = ''RIGHT'' then H else V)" by (rule sd(2))
  next
    assume "\<not> in_bounds g (ray (active_cell s) (dr, dc) k)"
    then have "\<not> in_bounds g (ray (fst (active_cell s), snd (active_cell s)) (dr, dc) k)" by simp
    from arrow_loop_edge [OF bb assms(6) kn this, of s d ori]
    show "reduce s ev g tm =
              Inr (s\<lparr>orientation := ori,
                     active_slot := resolve_active_slot g (active_cell s) ori False,
                     last_action := ''arrow:edge'', last_client_seq := seq_after s ev\<rparr>)"
      using reduce_arrow [OF assms(1), of s g _ tm] oa by simp
  next
    assume "is_playable g (ray (active_cell s) (dr, dc) k) = Inr True"
    then have "is_playable g (ray (fst (active_cell s), snd (active_cell s)) (dr, dc) k) = Inr True"
      by simp
    from arrow_loop_move [OF bb assms(6) kn this, of s d ori]
    show "reduce s ev g tm =
              Inr (s\<lparr>active_cell := ray (active_cell s) (dr, dc) k, orientation := ori,
                     active_slot := resolve_active_slot g (ray (active_cell s) (dr, dc) k) ori False,
                     last_action := ''arrow:'' @ py_lower d, last_client_seq := seq_after s ev\<rparr>)"
      using reduce_arrow [OF assms(1), of s g _ tm] oa by simp
  qed
qed

lemma case_samples:
  "py_upper ''right'' = ''RIGHT''" "py_lower ''RIGHT'' = ''right''" "py_upper ''left'' = ''LEFT''"
  by code_simp+

lemma grid_size_fixed: "grid_size build_grid_spec = 5"
  by (simp add: build_grid_spec_def)

lemma resolve_top_row:
  "resolve_active_slot build_grid_spec (0, 3) H False = V2"
  by (simp add: resolve_active_slot_def cell_to_slots_fixed slot_keys_def fixed_slots_eval)

theorem arrow_stops_at_edge_or_moves_witness:
  "etype (event ''ARROW'' [(''dir'', PyStr ''right'')]) = ''ARROW''
   \<and> py_upper (get_str (payload (event ''ARROW'' [(''dir'', PyStr ''right'')])) ''dir'') = ''RIGHT''
   \<and> ''RIGHT'' \<in> set DIRS \<and> step_dir ''RIGHT'' = (0, 1, H)
   \<and> ''LEFT'' \<in> set DIRS \<and> step_dir ''LEFT'' = (0, - 1, H)
   \<and> 2 \<le> grid_size build_grid_spec \<and> (1 :: nat) \<le> 2
   \<and> blocked_before build_grid_spec (0, 1) (0, 1) 2
   \<and> blocked_before build_grid_spec (0, 1) (0, - 1) 2
   \<and> is_playable build_grid_spec (ray (0, 1) (0, 1) 2) = Inr True
   \<and> \<not> in_bounds build_grid_spec (ray (0, 1) (0, - 1) 2)
   \<and> reduce (sample_state\<lparr>active_cell := (0, 1), active_slot := V1, orientation := V\<rparr>)
        (event ''ARROW'' [(''dir'', PyStr ''right'')]) build_grid_spec sample_truth
       = Inr (sample_state\<lparr>active_cell := (0, 3), active_slot := V2, orientation := H,
                last_action := ''arrow:right'', last_client_seq := 3\<rparr>)
   \<and> reduce (sample_state\<lparr>active_cell := (0, 1), active_slot := V1, orientation := V\<rparr>)
        (event ''ARROW'' [(''dir'', PyStr ''left'')]) build_grid_spec sample_truth
       = Inr (sample_state\<lparr>active_cell := (0, 1), active_slot := V1, orientation := H,
                last_action := ''arrow:edge'', last_client_seq := 3\<rparr>)"
proof -
  let ?s = "sample_state\<lparr>active_cell := (0, 1), active_slot := V1, orientation := V\<rparr>"
  let ?r = "event ''ARROW'' [(''dir'', PyStr ''right'')]"
  let ?l = "event ''ARROW'' [(''dir'', PyStr ''left'')]"
  have t: "etype ?r = ''ARROW''" "etype ?l = ''ARROW''" by (simp_all add: event_def)
  have d: "py_upper (get_str (payload ?r) ''dir'') = ''RIGHT''"
    "py_upper (get_str (payload ?l) ''dir'') = ''LEFT''"
    by (simp_all add: event_def get_str_def case_samples)
  have m: "''RIGHT'' \<in> set DIRS" "''LEFT'' \<in> set DIRS" by (simp_all add: DIRS_def)
  have sd: "step_dir ''RIGHT'' = (0, 1, H)" "step_dir ''LEFT'' = (0, - 1, H)"
    by (simp_all add: step_dir_def)
  have g: "2 \<le> grid_size build_grid_spec \<or> in_bounds build_grid_spec (active_cell ?s)"
    and g': "2 \<le> grid_size build_grid_spec"
    by (simp_all add: grid_size_fixed)
  have k: "(1 :: nat) \<le> 2" by simp
  have one: "j = 1" if "1 \<le> j \<and> j < 2" for j :: nat using that by arith
  have b: "blocked_before build_grid_spec (0, 1) (0, 1) 2"
    "blocked_before build_grid_spec (0, 1) (0, - 1) 2"
    unfolding blocked_before_def
    by (auto dest!: one simp: ray_def is_playable_fixed in_bounds_def grid_size_fixed)
  have ac: "active_cell ?s = (0, 1)" by simp
  have e: "is_playable build_grid_spec (ray (0, 1) (0, 1) 2) = Inr True"
    "\<not> in_bounds build_grid_spec (ray (0, 1) (0, - 1) 2)"
    by (simp_all add: ray_def is_playable_fixed in_bounds_def grid_size_fixed)
  have r2: "ray (0, 1) (0, 1) 2 = (0, 3)" by (simp add: ray_def)
  have sq: "seq_after ?s ?r = 3" "seq_after ?s ?l = 3"
    by (simp_all add: seq_after_def client_seq_int_def event_def sample_state_fields)
  have "reduce ?s ?r build_grid_spec sample_truth =
      Inr (?s\<lparr>active_cell := ray (active_cell ?s) (0, 1) 2, orientation := H,
              active_slot := resolve_active_slot build_grid_spec (ray (active_cell ?s) (0, 1) 2) H False,
              last_action := ''arrow:'' @ py_lower ''RIGHT'', last_client_seq := seq_after ?s ?r\<rparr>)"
    using arrow_stops_at_edge_or_moves [OF t(1) d(1) [symmetric] m(1) sd(1) g k, of sample_truth] b(1) e(1)
    unfolding ac by blast
  then have R: "reduce ?s ?r build_grid_spec sample_truth =
      Inr (sample_state\<lparr>active_cell := (0, 3), active_slot := V2, orientation := H,
                last_action := ''arrow:right'', last_client_seq := 3\<rparr>)"
    unfolding ac r2 sq resolve_top_row case_samples by simp
  have "reduce ?s ?l build_grid_spec sample_truth =
      Inr (?s\<lparr>orientation := H,
              active_slot := resolve_active_slot build_grid_spec (active_cell ?s) H False,
              last_action := ''arrow:edge'', last_client_seq := seq_after ?s ?l\<rparr>)"
    using arrow_stops_at_edge_or_moves [OF t(2) d(2) [symmetric] m(2) sd(2) g k, of sample_truth] b(2) e(2)
    unfolding ac by blast
  then have L: "reduce ?s ?l build_grid_spec sample_truth =
      Inr (sample_state\<lparr>active_cell := (0, 1), active_slot := V1, orientation := H,
                last_action := ''arrow:edge'', last_client_seq := 3\<rparr>)"
    unfolding ac sq resolve_samples by simp
  show ?thesis
    using t(1) d(1) m sd g' k b e R L by blast
qed

subsection \<open>Initialisation (C9)\<close>

lemma set_py_range: "set (py_range n) = {i. 0 \<le> i \<and> i < n}"
proof (intro set_eqI iffI)
  fix i assume "i \<in> set (py_range n)"
  then show "i \<in> {i. 0 \<le> i \<and> i < n}" by (auto simp: py_range_def)
next
  fix i assume "i \<in> {i. 0 \<le> i \<and> i < n}"
  then have "nat i < nat n" "int (nat i) = i" by auto
  then have "i \<in> int ` {0..<nat n}" by (metis atLeastLessThan_iff image_eqI zero_le)
  then show "i \<in> set (py_range n)" by (simp add: py_range_def)
qed

lemma set_scan_cells: "set (scan_cells g) = {cell. in_bounds g cell}"
  by (auto simp: scan_cells_def set_py_range in_bounds_def)

lemma init_letters_result:
  "\<forall>cell \<in> set cells. \<exists>b. mask_at g cell = Inr b \<Longrightarrow>
     init_letters g cells m =
       Inr (\<lambda>cell. if cell \<in> set cells \<and> mask_at g cell = Inr True then Some [] else m cell)"
proof (induction cells arbitrary: m)
  case Nil
  then show ?case by simp
next
  case (Cons x xs)
  from Cons.prems obtain b where b: "mask_at g x = Inr b" by auto
  have "init_letters g (x # xs) m = init_letters g xs (if b then m(x \<mapsto> []) else m)"
    by (simp add: b)
  also have "\<dots> = Inr (\<lambda>cell. if cell \<in> set xs \<and> mask_at g cell = Inr True then Some []
                              else (if b then m(x \<mapsto> []) else m) cell)"
    using Cons.IH [of "if b then m(x \<mapsto> []) else m"] Cons.prems by simp
  also have "(\<lambda>cell. if cell \<in> set xs \<and> mask_at g cell = Inr True then Some []
                              else (if b then m(x \<mapsto> []) else m) cell)
      = (\<lambda>cell. if cell \<in> set (x # xs) \<and> mask_at g cell = Inr True then Some [] else m cell)"
    using b by (intro ext) auto
  finally show ?case .
qed

lemma init_letters_fixed:
  "init_letters build_grid_spec (scan_cells build_grid_spec) Map.empty = Inr empty_letters"
proof -
  have tot: "\<forall>cell \<in> set (scan_cells build_grid_spec). \<exists>b. mask_at build_grid_spec cell = Inr b"
    using wf_grid_mask_at [OF wf_grid_fixed] by (simp add: set_scan_cells)
  have "(\<lambda>cell. if cell \<in> set (scan_cells build_grid_spec) \<and> mask_at build_grid_spec cell = Inr True
                 then Some [] else Map.empty cell) = empty_letters"
    unfolding empty_letters_def
  proof (rule ext)
    fix cell :: Cell
    obtain r c where rc: "cell = (r, c)" by (cases cell)
    show "(if cell \<in> set (scan_cells build_grid_spec) \<and> mask_at build_grid_spec cell = Inr True
             then Some [] else None)
        = (if is_playable build_grid_spec cell = Inr True then Some [] else None)"
      unfolding rc set_scan_cells
      using mask_at_fixed [of r c]
      by (auto simp: is_playable_fixed in_bounds_def grid_size_fixed)
  qed
  with init_letters_result [OF tot, of Map.empty] show ?thesis by simp
qed

lemma scan_cells_fixed_head:
  "\<exists>rest. scan_cells build_grid_spec = (0, 0) # (0, 1) # rest"
  by (simp add: scan_cells_def grid_size_fixed py_range_def upt_rec)

lemma first_playable_cell_fixed: "first_playable_cell build_grid_spec = Inr (0, 1)"
proof -
  from scan_cells_fixed_head obtain rest where "scan_cells build_grid_spec = (0, 0) # (0, 1) # rest"
    by blast
  then show ?thesis
    using mask_at_fixed [of 0 0] mask_at_fixed [of 0 1]
    by (simp add: first_playable_cell_def)
qed

lemma first_in_row_major:
  "is_playable build_grid_spec (0, 1) = Inr True"
  "is_playable build_grid_spec cell = Inr True \<Longrightarrow> row_major_le (0, 1) cell"
  by (cases cell; auto simp: is_playable_fixed row_major_le_def)+

lemma seeded_start: "seeded m0 (m0, {})"
  by (simp add: seeded_def)

lemma seeded_apply_given: "seeded m0 acc \<Longrightarrow> seeded m0 (apply_given item acc)"
  unfolding seeded_def apply_given_def
  by (auto simp: Let_def split: option.splits)

lemma seeded_fold: "seeded m0 acc \<Longrightarrow> seeded m0 (fold apply_given items acc)"
  by (induction items arbitrary: acc) (simp_all add: seeded_apply_given)

lemma init_state_fixed:
  "init_state puzzle build_grid_spec fresh_id =
     Inr \<lparr> puzzle_id = (case meta_id puzzle of None \<Rightarrow> filename puzzle | Some v \<Rightarrow> py_str v),
           state_id = fresh_id,
           grid_letters = fst (seed_fixed puzzle),
           given_cells = snd (seed_fixed puzzle),
           active_cell = (0, 1), active_slot = V1, orientation = H,
           check_marks = (\<lambda>cell. map_option (\<lambda>_. Ck_none) (fst (seed_fixed puzzle) cell)),
           last_action = ''init'', last_client_seq = 0 \<rparr>"
  by (simp add: init_state_def init_letters_fixed first_playable_cell_fixed seed_fixed_def
      resolve_samples Let_def)

lemma seed_fixed_props:
  "map_option (\<lambda>_. Ck_none) (fst (seed_fixed puzzle) cell) =
      (if is_playable build_grid_spec cell = Inr True then Some Ck_none else None)"
  "cell \<notin> snd (seed_fixed puzzle) \<Longrightarrow> fst (seed_fixed puzzle) cell =
      (if is_playable build_grid_spec cell = Inr True then Some [] else None)"
  "cell \<in> snd (seed_fixed puzzle) \<Longrightarrow> is_playable build_grid_spec cell = Inr True
      \<and> (\<exists>l. fst (seed_fixed puzzle) cell = Some l \<and> is_AZ l)"
proof -
  have sd: "seeded empty_letters (seed_fixed puzzle)"
    unfolding seed_fixed_def by (rule seeded_fold [OF seeded_start])
  have sdc: "(fst (seed_fixed puzzle) cell = None \<longleftrightarrow> empty_letters cell = None)
      \<and> (cell \<notin> snd (seed_fixed puzzle) \<longrightarrow> fst (seed_fixed puzzle) cell = empty_letters cell)
      \<and> (cell \<in> snd (seed_fixed puzzle) \<longrightarrow> (\<exists>l. fst (seed_fixed puzzle) cell = Some l \<and> is_AZ l))"
    using sd unfolding seeded_def by blast
  have none: "fst (seed_fixed puzzle) cell = None \<longleftrightarrow> is_playable build_grid_spec cell \<noteq> Inr True"
    using sdc by (simp add: empty_letters_def)
  show "map_option (\<lambda>_. Ck_none) (fst (seed_fixed puzzle) cell) =
      (if is_playable build_grid_spec cell = Inr True then Some Ck_none else None)"
    using none by (cases "fst (seed_fixed puzzle) cell") auto
  show "cell \<notin> snd (seed_fixed puzzle) \<Longrightarrow> fst (seed_fixed puzzle) cell =
      (if is_playable build_grid_spec cell = Inr True then Some [] else None)"
    using sdc by (simp add: empty_letters_def)
  show "cell \<in> snd (seed_fixed puzzle) \<Longrightarrow> is_playable build_grid_spec cell = Inr True
      \<and> (\<exists>l. fst (seed_fixed puzzle) cell = Some l \<and> is_AZ l)"
    using sdc none by auto
qed

text \<open>
  Claim C9. On the fixed geometry \<^verbatim>\<open>init_state\<close> returns for every puzzle. In the state it
  returns the orientation is across; the active cell is \<open>(0, 1)\<close>, which is what
  \<^verbatim>\<open>first_playable_cell\<close> returns: a playable cell that comes no later than any playable
  cell in row-major order; that cell belongs to \<open>v1\<close> only, and the active slot is \<open>v1\<close>,
  the value of the resolution rule for the across orientation without preference for
  the hidden word; the cells with a check mark are the playable cells and every mark
  is \<open>none\<close>; a playable cell that is not a given holds the empty letter; and a given cell
  is a playable cell holding one letter \<open>A\<close> to \<open>Z\<close>.
\<close>

theorem init_state_on_fixed_geometry:
  "\<exists>s. init_state puzzle build_grid_spec fresh_id = Inr s
       \<and> orientation s = H \<and> active_cell s = (0, 1)
       \<and> first_playable_cell build_grid_spec = Inr (0, 1)
       \<and> is_playable build_grid_spec (0, 1) = Inr True
       \<and> (\<forall>cell. is_playable build_grid_spec cell = Inr True \<longrightarrow> row_major_le (0, 1) cell)
       \<and> cell_to_slots build_grid_spec (0, 1) = Some [V1]
       \<and> active_slot s = V1 \<and> resolve_active_slot build_grid_spec (0, 1) H False = V1
       \<and> (\<forall>cell. check_marks s cell =
                   (if is_playable build_grid_spec cell = Inr True then Some Ck_none else None))
       \<and> (\<forall>cell. cell \<notin> given_cells s \<longrightarrow>
                   grid_letters s cell =
                     (if is_playable build_grid_spec cell = Inr True then Some [] else None))
       \<and> (\<forall>cell \<in> given_cells s. is_playable build_grid_spec cell = Inr True
                   \<and> (\<exists>l. grid_letters s cell = Some l \<and> is_AZ l))
       \<and> last_action s = ''init'' \<and> last_client_seq s = 0 \<and> state_id s = fresh_id"
  unfolding init_state_fixed
  using seed_fixed_props [where puzzle=puzzle] first_in_row_major
  by (simp add: first_playable_cell_fixed cell_to_slots_samples resolve_samples)

lemma sample_given_texts:
  "py_strip (py_upper '' q'') = ''Q''" "py_strip (py_upper ''B'') = ''B''"
  "py_strip (py_upper ''ab'') = ''AB''"
  "parse_cell_id ''1,0'' = Some (1, 0)" "parse_cell_id ''0,0'' = Some (0, 0)"
  by code_simp+

lemma seed_fixed_sample:
  "seed_fixed sample_puzzle = (empty_letters((1, 0) \<mapsto> ''Q''), {(1, 0)})"
  by (simp add: seed_fixed_def sample_puzzle_def apply_given_def get_str_def sample_given_texts
      parse_cell_id_samples empty_letters_def is_playable_fixed is_AZ_def Let_def)

theorem init_state_on_fixed_geometry_witness:
  "\<exists>s. init_state sample_puzzle build_grid_spec ''u1'' = Inr s
       \<and> orientation s = H \<and> active_cell s = (0, 1) \<and> active_slot s = V1
       \<and> is_playable build_grid_spec (1, 1) = Inr True \<and> row_major_le (0, 1) (1, 1)
       \<and> check_marks s (1, 1) = Some Ck_none \<and> check_marks s (0, 0) = None
       \<and> (1, 1) \<notin> given_cells s \<and> grid_letters s (1, 1) = Some []
       \<and> (1, 0) \<in> given_cells s \<and> grid_letters s (1, 0) = Some ''Q'' \<and> is_AZ ''Q''"
proof -
  from init_state_on_fixed_geometry [of sample_puzzle "''u1''"]
  obtain s where s: "init_state sample_puzzle build_grid_spec ''u1'' = Inr s"
    and o: "orientation s = H \<and> active_cell s = (0, 1) \<and> active_slot s = V1"
    and rm: "\<forall>cell. is_playable build_grid_spec cell = Inr True \<longrightarrow> row_major_le (0, 1) cell"
    and cm: "\<forall>cell. check_marks s cell =
                   (if is_playable build_grid_spec cell = Inr True then Some Ck_none else None)"
    and fr: "\<forall>cell. cell \<notin> given_cells s \<longrightarrow>
                   grid_letters s cell =
                     (if is_playable build_grid_spec cell = Inr True then Some [] else None)"
    by blast
  have p: "is_playable build_grid_spec (1, 1) = Inr True" "is_playable build_grid_spec (0, 0) = Inr False"
    by (simp_all add: is_playable_fixed)
  have gc: "given_cells s = {(1, 0)}" and q: "grid_letters s (1, 0) = Some ''Q''"
    using s by (auto simp: init_state_fixed seed_fixed_sample)
  have az: "is_AZ ''Q''" by (simp add: is_AZ_def)
  have "(1, 1) \<notin> given_cells s" using gc by simp
  with fr p have l: "grid_letters s (1, 1) = Some []" by simp
  from cm p have c: "check_marks s (1, 1) = Some Ck_none" "check_marks s (0, 0) = None" by simp_all
  from rm p have r: "row_major_le (0, 1) (1, 1)" by blast
  show ?thesis
    using s o p(1) r c gc l q az by auto
qed

subsection \<open>The invariants of reachable states\<close>

lemma set_fixed_slots:
  "set (fixed_slots H1) = {(r, c). r = 1 \<and> 0 \<le> c \<and> c < 5}"
  "set (fixed_slots H2) = {(r, c). r = 3 \<and> 0 \<le> c \<and> c < 5}"
  "set (fixed_slots V1) = {(r, c). c = 1 \<and> 0 \<le> r \<and> r < 5}"
  "set (fixed_slots V2) = {(r, c). c = 3 \<and> 0 \<le> r \<and> r < 5}"
  "set (fixed_slots HW) = {(1, 1), (1, 3), (3, 3), (3, 1)}"
  by (auto simp: fixed_slots.simps set_py_range)

lemma fixed_slots_playable:
  "cell \<in> set (fixed_slots sid) \<Longrightarrow> cell \<in> playable_cells"
  by (cases sid; cases cell) (auto simp: set_fixed_slots is_playable_fixed playable_cells_def)

lemma playable_has_slot:
  assumes "cell \<in> playable_cells"
  shows "filter (\<lambda>sid. cell \<in> set (fixed_slots sid)) slot_keys \<noteq> []"
proof -
  obtain r c where rc: "cell = (r, c)" by (cases cell)
  from assms rc have "cell \<in> set (fixed_slots H1) \<or> cell \<in> set (fixed_slots H2)
      \<or> cell \<in> set (fixed_slots V1) \<or> cell \<in> set (fixed_slots V2)"
    by (auto simp: set_fixed_slots is_playable_fixed playable_cells_def)
  then show ?thesis by (auto simp: slot_keys_def filter_empty_conv)
qed

lemma resolve_in_memberships:
  assumes "cell_to_slots g cell = Some l" "l \<noteq> []"
  shows "resolve_active_slot g cell ori pf \<in> set l"
proof -
  let ?h = "filter (\<lambda>s. s \<in> {H1, H2}) l"
  let ?v = "filter (\<lambda>s. s \<in> {V1, V2}) l"
  let ?w = "filter (\<lambda>s. s = HW) l"
  have hd_h: "?h \<noteq> [] \<Longrightarrow> hd ?h \<in> set l" by (metis filter_is_subset hd_in_set subsetD)
  have hd_v: "?v \<noteq> [] \<Longrightarrow> hd ?v \<in> set l" by (metis filter_is_subset hd_in_set subsetD)
  have w: "?w \<noteq> [] \<Longrightarrow> HW \<in> set l" by (auto simp: filter_empty_conv)
  have some: "?h \<noteq> [] \<or> ?v \<noteq> [] \<or> ?w \<noteq> []"
  proof -
    from assms(2) have x: "hd l \<in> set l" by simp
    have "hd l \<in> {H1, H2} \<or> hd l \<in> {V1, V2} \<or> hd l = HW" by (cases "hd l") auto
    with x show ?thesis unfolding filter_empty_conv by blast
  qed
  show ?thesis
    using hd_h hd_v w some assms(1)
    by (simp add: resolve_active_slot_def Let_def)
qed

lemma resolve_contains:
  assumes "cell \<in> playable_cells"
  shows "cell \<in> set (fixed_slots (resolve_active_slot build_grid_spec cell ori pf))"
proof -
  let ?l = "filter (\<lambda>sid. cell \<in> set (fixed_slots sid)) slot_keys"
  have ne: "?l \<noteq> []" by (rule playable_has_slot [OF assms])
  then have "cell_to_slots build_grid_spec cell = Some ?l" by (simp add: cell_to_slots_fixed)
  from resolve_in_memberships [OF this ne, of ori pf] show ?thesis by simp
qed

lemma state_ok_tag: "state_ok s \<Longrightarrow> state_ok (s\<lparr>last_action := a\<rparr>)"
  by (simp add: state_ok_def)

lemma state_ok_focus:
  assumes "state_ok s" "cell \<in> playable_cells" "cell \<in> set (fixed_slots sid)"
  shows "state_ok (s\<lparr>active_cell := cell, orientation := ori, active_slot := sid, last_action := a\<rparr>)"
  using assms by (simp add: state_ok_def)

lemma state_ok_move:
  assumes "state_ok s" "cell \<in> playable_cells" "cell \<in> set (fixed_slots (active_slot s))"
  shows "state_ok (s\<lparr>active_cell := cell, last_action := a\<rparr>)"
  using assms by (simp add: state_ok_def)

lemma state_ok_resolved:
  assumes "state_ok s" "cell \<in> playable_cells"
  shows "state_ok (s\<lparr>active_cell := cell, orientation := ori,
            active_slot := resolve_active_slot build_grid_spec cell ori pf, last_action := a\<rparr>)"
  using state_ok_focus [OF assms resolve_contains [OF assms(2)]] .

lemma state_ok_marks:
  assumes "state_ok s" "dom m = playable_cells"
  shows "state_ok (s\<lparr>check_marks := m, last_action := a\<rparr>)"
  using assms by (simp add: state_ok_def)

lemma dom_all_none: "dom (\<lambda>cell. map_option (\<lambda>_. Ck_none) (m cell)) = dom m"
  by (auto simp: dom_def)

lemma state_ok_edit:
  assumes "state_ok s" "cell \<in> playable_cells" "cell' \<in> set (fixed_slots (active_slot s))"
  shows "state_ok ((clear_checks (s\<lparr>grid_letters := (grid_letters s)(cell \<mapsto> l), last_action := a\<rparr>))
           \<lparr>active_cell := cell'\<rparr>)"
proof -
  from assms(1) have ld: "dom (grid_letters s) = playable_cells" by (simp add: state_ok_def)
  with assms(2) have "insert cell (dom (grid_letters s)) = playable_cells"
    by (simp add: insert_absorb)
  with assms fixed_slots_playable [OF assms(3)] show ?thesis
    by (simp add: state_ok_def clear_checks_def dom_all_none)
qed

lemma state_ok_edit_here:
  assumes "state_ok s" "cell \<in> playable_cells"
  shows "state_ok (clear_checks (s\<lparr>grid_letters := (grid_letters s)(cell \<mapsto> l), last_action := a\<rparr>))"
proof -
  from assms(1) have ld: "dom (grid_letters s) = playable_cells" by (simp add: state_ok_def)
  with assms(2) have "insert cell (dom (grid_letters s)) = playable_cells"
    by (simp add: insert_absorb)
  with assms show ?thesis
    by (simp add: state_ok_def clear_checks_def dom_all_none)
qed

lemma state_ok_here: "state_ok s \<Longrightarrow> active_cell s \<in> set (fixed_slots (active_slot s))"
  and state_ok_active: "state_ok s \<Longrightarrow> active_cell s \<in> playable_cells"
  by (simp_all add: state_ok_def)

lemma arrow_loop_ok:
  "arrow_loop n s build_grid_spec d dr dc ori r c = Inr out \<Longrightarrow> state_ok s \<Longrightarrow> state_ok out"
proof (induction n arbitrary: r c)
  case 0
  then have "out = s\<lparr>last_action := ''arrow:failed''\<rparr>" by simp
  with 0 show ?case by (simp add: state_ok_tag)
next
  case (Suc n)
  show ?case
  proof (cases "in_bounds build_grid_spec (r + dr, c + dc)")
    case False
    with Suc.prems(1) have "out = s\<lparr>active_cell := active_cell s, orientation := ori,
        active_slot := resolve_active_slot build_grid_spec (active_cell s) ori False,
        last_action := ''arrow:edge''\<rparr>"
      by (simp add: arrow_loop_Suc del: arrow_loop.simps)
    with state_ok_resolved [OF Suc.prems(2) state_ok_active [OF Suc.prems(2)]]
    show ?thesis by simp
  next
    case True
    from wf_grid_is_playable [OF wf_grid_fixed] obtain b
      where b: "is_playable build_grid_spec (r + dr, c + dc) = Inr b" by blast
    show ?thesis
    proof (cases b)
      case True
      with b \<open>in_bounds build_grid_spec (r + dr, c + dc)\<close> Suc.prems(1)
      have "out = s\<lparr>active_cell := (r + dr, c + dc), orientation := ori,
          active_slot := resolve_active_slot build_grid_spec (r + dr, c + dc) ori False,
          last_action := ''arrow:'' @ py_lower d\<rparr>"
        by (simp add: arrow_loop_Suc del: arrow_loop.simps)
      moreover have "(r + dr, c + dc) \<in> playable_cells" using b True by (simp add: playable_cells_def)
      ultimately show ?thesis
        using state_ok_resolved [OF Suc.prems(2)] by simp
    next
      case False
      with b \<open>in_bounds build_grid_spec (r + dr, c + dc)\<close> Suc.prems(1)
      have "arrow_loop n s build_grid_spec d dr dc ori (r + dr) (c + dc) = Inr out"
        by (simp add: arrow_loop_Suc del: arrow_loop.simps)
      from Suc.IH [OF this Suc.prems(2)] show ?thesis .
    qed
  qed
qed

lemma advance_in_slot:
  assumes "advance_within_slot build_grid_spec sid cell step = Inr cell'"
  shows "cell' \<in> set (fixed_slots sid)"
proof -
  have ne: "fixed_slots sid \<noteq> []" by (cases sid) (simp_all add: fixed_slots_eval)
  show ?thesis
  proof (cases "cell \<in> set (fixed_slots sid)")
    case False
    with assms ne show ?thesis
      by (auto simp: advance_within_slot_def slots_fixed split: list.splits)
  next
    case True
    with assms show ?thesis
      by (auto simp: advance_within_slot_def slots_fixed Let_def split: if_splits)
  qed
qed

lemma check_word_marks_dom:
  "set cells \<subseteq> D \<Longrightarrow> dom marks = D \<Longrightarrow> dom (fold (check_word_step s tm) cells marks) = D"
proof (induction cells arbitrary: marks)
  case Nil
  then show ?case by simp
next
  case (Cons x xs)
  have "dom (check_word_step s tm x marks) = D"
  proof (cases "truth tm x")
    case None
    then show ?thesis using Cons.prems(2) by (simp add: check_word_step_def)
  next
    case (Some e)
    then show ?thesis using Cons.prems by (simp add: check_word_step_def insert_absorb)
  qed
  with Cons.IH [of "check_word_step s tm x marks"] Cons.prems show ?case by simp
qed

lemma on_click_cell_ok:
  assumes "on_click_cell s p build_grid_spec = Inr out" "state_ok s"
  shows "state_ok out"
proof (cases "parse_cell_id (get_str p ''cell_id'')")
  case None
  with assms(1) have "out = s\<lparr>last_action := ''click:bad_cell_id''\<rparr>"
    by (simp add: on_click_cell_def)
  with assms(2) show ?thesis by (simp add: state_ok_tag)
next
  case (Some cell)
  from wf_grid_is_playable [OF wf_grid_fixed] obtain b
    where b: "is_playable build_grid_spec cell = Inr b" by blast
  show ?thesis
  proof (cases b)
    case False
    with b Some assms(1) have "out = s\<lparr>last_action := ''click:black_or_oob''\<rparr>"
      by (simp add: on_click_cell_def)
    with assms(2) show ?thesis by (simp add: state_ok_tag)
  next
    case True
    with b have pc: "cell \<in> playable_cells" by (simp add: playable_cells_def)
    define ori where "ori = (if cell = active_cell s \<and> has_h build_grid_spec cell \<and> has_v build_grid_spec cell
                       then flip (orientation s) else orientation s)"
    from True b Some assms(1) have
      "out = s\<lparr>active_cell := cell, orientation := ori,
                active_slot := resolve_active_slot build_grid_spec cell ori False,
                last_action := ''click''\<rparr>"
      by (auto simp: on_click_cell_def Let_def ori_def)
    with state_ok_resolved [OF assms(2) pc] show ?thesis by simp
  qed
qed

lemma on_type_char_ok:
  assumes "on_type_char s p build_grid_spec = Inr out" "state_ok s"
  shows "state_ok out"
proof (cases "\<not> is_AZ (py_upper (get_str p ''char'')) \<or> active_cell s \<in> given_cells s")
  case True
  with assms(1) have "out = s\<lparr>last_action := ''type:ignored''\<rparr>
      \<or> out = s\<lparr>last_action := ''type:on_given_ignored''\<rparr>"
    by (auto simp: on_type_char_def Let_def split: if_splits)
  with assms(2) show ?thesis by (auto simp: state_ok_tag)
next
  case False
  with assms(1) obtain nxt
    where n: "advance_within_slot build_grid_spec (active_slot s) (active_cell s) 1 = Inr nxt"
      and o: "out = (clear_checks (s\<lparr>grid_letters := (grid_letters s)(active_cell s \<mapsto> py_upper (get_str p ''char'')),
                    last_action := ''type''\<rparr>))\<lparr>active_cell := nxt\<rparr>"
    by (auto simp: on_type_char_def Let_def split: sum.splits)
  from state_ok_edit [OF assms(2) state_ok_active [OF assms(2)] advance_in_slot [OF n]] o
  show ?thesis by simp
qed

lemma on_backspace_ok:
  assumes "on_backspace s build_grid_spec = Inr out" "state_ok s"
  shows "state_ok out"
proof (cases "active_cell s \<in> given_cells s")
  case True
  with assms(1) have "out = s\<lparr>last_action := ''backspace:on_given_ignored''\<rparr>"
    by (simp add: on_backspace_def)
  with assms(2) show ?thesis by (simp add: state_ok_tag)
next
  case ng: False
  show ?thesis
  proof (cases "letter_at s (active_cell s) \<noteq> []")
    case True
    with ng assms(1) have "out = clear_checks (s\<lparr>grid_letters := (grid_letters s)(active_cell s \<mapsto> []),
        last_action := ''backspace:clear''\<rparr>)"
      by (simp add: on_backspace_def)
    with state_ok_edit_here [OF assms(2) state_ok_active [OF assms(2)]]
    show ?thesis by simp
  next
    case False
    with ng assms(1) obtain prv
      where p: "advance_within_slot build_grid_spec (active_slot s) (active_cell s) (- 1) = Inr prv"
        and o: "out = (if prv = active_cell s then s\<lparr>last_action := ''backspace:at_start''\<rparr>
                 else if prv \<in> given_cells s
                   then s\<lparr>active_cell := prv, last_action := ''backspace:prev_is_given''\<rparr>
                 else (clear_checks (s\<lparr>grid_letters := (grid_letters s)(prv \<mapsto> []),
                        last_action := ''backspace:move_clear''\<rparr>))\<lparr>active_cell := prv\<rparr>)"
      by (auto simp: on_backspace_def clear_checks_def split: sum.splits if_splits)
    note in_slot = advance_in_slot [OF p]
    note pl = fixed_slots_playable [OF in_slot]
    from o state_ok_tag [OF assms(2)] state_ok_move [OF assms(2) pl in_slot]
      state_ok_edit [OF assms(2) pl in_slot]
    show ?thesis by (simp split: if_splits)
  qed
qed

lemma on_arrow_ok:
  assumes "on_arrow s p build_grid_spec = Inr out" "state_ok s"
  shows "state_ok out"
proof -
  obtain dr dc ori where sd: "step_dir (py_upper (get_str p ''dir'')) = (dr, dc, ori)"
    by (cases "step_dir (py_upper (get_str p ''dir''))") auto
  show ?thesis
  proof (cases "dr = 0 \<and> dc = 0")
    case True
    with sd assms(1) have "out = s\<lparr>last_action := ''arrow:ignored''\<rparr>"
      by (simp add: on_arrow_def Let_def)
    with assms(2) show ?thesis by (simp add: state_ok_tag)
  next
    case False
    with sd assms(1) have "arrow_loop (nat (grid_size build_grid_spec * grid_size build_grid_spec)) s
        build_grid_spec (py_upper (get_str p ''dir'')) dr dc ori (fst (active_cell s)) (snd (active_cell s)) = Inr out"
      by (auto simp: on_arrow_def Let_def)
    from arrow_loop_ok [OF this assms(2)] show ?thesis .
  qed
qed

lemma on_tab_ok:
  assumes "on_tab s build_grid_spec fwd = Inr out" "state_ok s"
  shows "state_ok out"
proof -
  let ?sl = "tab_slot (active_slot s) fwd"
  define ori where "ori = (if ?sl \<in> {H1, H2} then H else if ?sl \<in> {V1, V2} then V else orientation s)"
  from assms(1) obtain first rest where fr: "fixed_slots ?sl = first # rest"
    by (cases "fixed_slots ?sl") (simp_all add: on_tab_def Let_def slots_fixed)
  with assms(1) have
    o: "out = s\<lparr>active_cell := first, orientation := ori, active_slot := ?sl, last_action := ''tab''\<rparr>"
    by (auto simp: on_tab_def Let_def slots_fixed ori_def)
  have "first \<in> set (fixed_slots ?sl)" using fr by simp
  from state_ok_focus [OF assms(2) fixed_slots_playable [OF this] this] o show ?thesis by simp
qed

lemma on_toggle_ok:
  assumes "on_toggle_orientation s build_grid_spec = Inr out" "state_ok s"
  shows "state_ok out"
proof (cases "has_h build_grid_spec (active_cell s) \<and> has_v build_grid_spec (active_cell s)")
  case False
  with assms(1) have "out = s\<lparr>last_action := ''toggle:ignored''\<rparr>"
    by (auto simp: on_toggle_orientation_def Let_def)
  with assms(2) show ?thesis by (simp add: state_ok_tag)
next
  case True
  with assms(1) have "out = s\<lparr>active_cell := active_cell s, orientation := flip (orientation s),
      active_slot := resolve_active_slot build_grid_spec (active_cell s) (flip (orientation s)) False,
      last_action := ''toggle''\<rparr>"
    by (auto simp: on_toggle_orientation_def Let_def)
  with state_ok_resolved [OF assms(2) state_ok_active [OF assms(2)]] show ?thesis by simp
qed

lemma check_word_ok:
  assumes "check_word s build_grid_spec tm = Inr out" "state_ok s"
  shows "state_ok out"
proof -
  have sub: "set (fixed_slots (active_slot s)) \<subseteq> playable_cells" using fixed_slots_playable by blast
  from assms(2) have md: "dom (check_marks s) = playable_cells" by (simp add: state_ok_def)
  from assms(1) have "out = s\<lparr>check_marks := fold (check_word_step s tm) (fixed_slots (active_slot s)) (check_marks s),
      last_action := ''check_word''\<rparr>"
    by (simp add: check_word_def slots_fixed)
  with state_ok_marks [OF assms(2) check_word_marks_dom [OF sub md]] show ?thesis by simp
qed

lemma check_puzzle_ok:
  assumes "check_puzzle s build_grid_spec tm = Inr out" "state_ok s" "truth_ok tm"
  shows "state_ok out"
proof -
  let ?m = "\<lambda>cell. case truth tm cell of None \<Rightarrow> check_marks s cell
                      | Some expected \<Rightarrow> Some (mark_for s cell expected)"
  from assms(2) have md: "dom (check_marks s) = playable_cells" by (simp add: state_ok_def)
  have "cell \<in> dom ?m \<longleftrightarrow> cell \<in> playable_cells" for cell
  proof (cases "truth tm cell")
    case None
    then show ?thesis using md by (auto simp: dom_def)
  next
    case (Some e)
    then have "cell \<in> playable_cells" using assms(3) by (auto simp: truth_ok_def)
    with Some show ?thesis by (simp add: dom_def)
  qed
  then have "dom ?m = playable_cells" by blast
  from state_ok_marks [OF assms(2) this] assms(1) show ?thesis by (auto simp: check_puzzle_def)
qed

lemma dispatch_ok:
  assumes "dispatch s ev build_grid_spec tm = Inr out" "state_ok s" "truth_ok tm"
  shows "state_ok out"
proof -
  let ?g = build_grid_spec
  have "dispatch s ev ?g tm = on_click_cell s (payload ev) ?g
      \<or> dispatch s ev ?g tm = on_type_char s (payload ev) ?g
      \<or> dispatch s ev ?g tm = on_backspace s ?g
      \<or> dispatch s ev ?g tm = on_arrow s (payload ev) ?g
      \<or> dispatch s ev ?g tm = on_tab s ?g True
      \<or> dispatch s ev ?g tm = on_tab s ?g False
      \<or> dispatch s ev ?g tm = on_toggle_orientation s ?g
      \<or> dispatch s ev ?g tm = check_word s ?g tm
      \<or> dispatch s ev ?g tm = check_puzzle s ?g tm
      \<or> dispatch s ev ?g tm = Inr (s\<lparr>last_action := ''ignored:'' @ etype ev\<rparr>)"
    by (simp add: dispatch_def Let_def)
  then show ?thesis
    using assms(1) on_click_cell_ok [OF _ assms(2)] on_type_char_ok [OF _ assms(2)]
      on_backspace_ok [OF _ assms(2)] on_arrow_ok [OF _ assms(2)] on_tab_ok [OF _ assms(2)]
      on_toggle_ok [OF _ assms(2)] check_word_ok [OF _ assms(2)]
      check_puzzle_ok [OF _ assms(2,3)] state_ok_tag [OF assms(2), of "''ignored:'' @ etype ev"]
    by (elim disjE) (simp_all only:, (blast+)?)
qed

lemma reduce_ok:
  assumes "reduce s ev build_grid_spec tm = Inr out" "state_ok s" "truth_ok tm"
  shows "state_ok out"
proof -
  from assms(1) obtain mid where mid: "dispatch s ev build_grid_spec tm = Inr mid"
    and out: "out = merge_seq (client_seq_int (payload ev)) mid"
    by (auto simp: reduce_def split: sum.splits)
  have "state_ok (merge_seq cs mid) = state_ok mid" for cs
    by (simp add: merge_seq_def state_ok_def split: option.splits)
  with dispatch_ok [OF mid assms(2,3)] out show ?thesis by simp
qed

lemma init_state_ok:
  assumes "init_state puzzle build_grid_spec fresh_id = Inr s"
  shows "state_ok s"
proof -
  from assms have s: "s = \<lparr> puzzle_id = (case meta_id puzzle of None \<Rightarrow> filename puzzle | Some v \<Rightarrow> py_str v),
           state_id = fresh_id,
           grid_letters = fst (seed_fixed puzzle),
           given_cells = snd (seed_fixed puzzle),
           active_cell = (0, 1), active_slot = V1, orientation = H,
           check_marks = (\<lambda>cell. map_option (\<lambda>_. Ck_none) (fst (seed_fixed puzzle) cell)),
           last_action = ''init'', last_client_seq = 0 \<rparr>"
    by (simp add: init_state_fixed)
  have l: "cell \<in> dom (fst (seed_fixed puzzle)) \<longleftrightarrow> cell \<in> playable_cells" for cell
    using seed_fixed_props(2,3) [where puzzle=puzzle and cell=cell]
    by (cases "cell \<in> snd (seed_fixed puzzle)") (auto simp: dom_def playable_cells_def)
  then have ld: "dom (fst (seed_fixed puzzle)) = playable_cells" by blast
  have g: "snd (seed_fixed puzzle) \<subseteq> playable_cells"
    using seed_fixed_props(3) [where puzzle=puzzle] by (auto simp: playable_cells_def)
  have p: "(0, 1) \<in> playable_cells" by (simp add: playable_cells_def is_playable_fixed)
  show ?thesis
    unfolding s using ld g p by (simp add: state_ok_def fixed_slots_eval dom_all_none)
qed

lemma reachable_state_ok: "reachable tm s \<Longrightarrow> truth_ok tm \<Longrightarrow> state_ok s"
proof (induction rule: reachable.induct)
  case (start puzzle fresh_id s)
  then show ?case by (simp add: init_state_ok)
next
  case (step s ev out)
  then show ?case using reduce_ok by blast
qed

text \<open>
  In a reachable state the active cell stands at a position of the active slot's cells,
  which are distinct: the premises of the statements on \<^verbatim>\<open>TYPE_CHAR\<close> and \<^verbatim>\<open>BACKSPACE\<close>
  hold, and the cells with a check mark are the playable cells.
\<close>

lemma reachable_position:
  assumes "reachable tm s" "truth_ok tm"
  shows "\<exists>cells i. slots build_grid_spec (active_slot s) = Some cells \<and> distinct cells
           \<and> i < length cells \<and> active_cell s = cells ! i"
    and "dom (check_marks s) = playable_cells"
proof -
  from reachable_state_ok [OF assms] have ok: "state_ok s" .
  then obtain i where "i < length (fixed_slots (active_slot s))"
    "active_cell s = fixed_slots (active_slot s) ! i"
    by (metis in_set_conv_nth state_ok_here)
  then show "\<exists>cells i. slots build_grid_spec (active_slot s) = Some cells \<and> distinct cells
           \<and> i < length cells \<and> active_cell s = cells ! i"
    using slots_fixed distinct_fixed_slots by blast
  from ok show "dom (check_marks s) = playable_cells" by (simp add: state_ok_def)
qed

lemma project_answer_dom:
  "project_answer cells answer t = Inr t' \<Longrightarrow> dom t' \<subseteq> dom t \<union> set cells"
proof (induction cells arbitrary: answer t)
  case Nil
  then show ?case by simp
next
  case (Cons cell cells)
  then obtain ch rest where a: "answer = ch # rest"
    and r: "project_answer cells rest (t(cell \<mapsto> [ch])) = Inr t'"
    by (cases answer) auto
  from Cons.IH [OF r] show ?case by auto
qed

lemma project_entries_dom:
  "project_entries build_grid_spec es t = Inr t' \<Longrightarrow> dom t \<subseteq> playable_cells \<Longrightarrow>
     dom t' \<subseteq> playable_cells"
proof (induction es arbitrary: t)
  case Nil
  then show ?case by simp
next
  case (Cons e es)
  obtain sid answer where e: "e = (sid, answer)" by (cases e)
  with Cons.prems(1) obtain mid
    where m: "project_answer (fixed_slots sid) answer t = Inr mid"
      and r: "project_entries build_grid_spec es mid = Inr t'"
    by (auto simp: slots_fixed split: sum.splits)
  have "dom mid \<subseteq> playable_cells"
    using project_answer_dom [OF m] Cons.prems(2) fixed_slots_playable by blast
  from Cons.IH [OF r this] show ?case .
qed

text \<open>The truth map \<^verbatim>\<open>build_truth_map\<close> makes on the fixed geometry is of that kind.\<close>

lemma build_truth_map_ok: "build_truth_map puzzle build_grid_spec = Inr tm \<Longrightarrow> truth_ok tm"
  using project_entries_dom [of "entries puzzle" Map.empty]
  by (auto simp: build_truth_map_def truth_ok_def split: sum.splits)

lemma build_truth_map_sample:
  "\<exists>tm. build_truth_map sample_puzzle build_grid_spec = Inr tm \<and> truth tm (1, 1) = Some ''B''
      \<and> truth tm (3, 3) = Some ''I'' \<and> truth tm (0, 0) = None"
  by (simp add: build_truth_map_def sample_puzzle_def slots_fixed fixed_slots_eval)

end
